theory Spec2Isabelle
  imports Complex_Main "HOL-Library.Product_Lexorder"
begin

section \<open>The Sakila Text2SQL evaluator\<close>

text \<open>
  A shallow embedding of \<^verbatim>\<open>SakilaText2SQLEvaluator\<close>
  (the Text2SQL evaluation module): the SQL normaliser, the similarity scorer, the
  executor, the per-case evaluator, the corpus sampler and the aggregator.

  Conventions.
  \<^item> A Python \<^verbatim>\<open>str\<close> is a \<^typ>\<open>string\<close>; the model covers ASCII text, on which
    \<^verbatim>\<open>str.lower\<close>, \<^verbatim>\<open>str.upper\<close>, \<^verbatim>\<open>str.isspace\<close> and the regular expression
    class \<^verbatim>\<open>\s\<close> are the functions below.
  \<^item> A Python \<^verbatim>\<open>int\<close> is an \<^typ>\<open>int\<close>; \<^verbatim>\<open>//\<close> is floor division, which is
    \<open>div\<close> on \<^typ>\<open>int\<close>.
  \<^item> A Python \<^verbatim>\<open>float\<close> score is the exact rational it rounds. The scores the
    theorems below pin down are floats exactly (\<open>0\<close>, \<open>1/4\<close>, \<open>1/2\<close>, \<open>1\<close>), except
    \<open>16/21\<close> and \<open>17/21\<close>, which round to two different floats.
  \<^item> An exception is a value: functions that can raise return a sum, \<open>Inl\<close> the error.
\<close>

subsection \<open>Python strings\<close>

definition is_space :: "char \<Rightarrow> bool" where
  \<comment> \<open>\<^verbatim>\<open>str.isspace\<close> and \<^verbatim>\<open>\s\<close> on ASCII: TAB, LF, VT, FF, CR, FS, GS, RS, US, SPACE\<close>
  "is_space c \<longleftrightarrow> c \<in> set [CHR 0x09, CHR 0x0A, CHR 0x0B, CHR 0x0C, CHR 0x0D,
                              CHR 0x1C, CHR 0x1D, CHR 0x1E, CHR 0x1F, CHR 0x20]"

definition lower_char :: "char \<Rightarrow> char" where
  "lower_char c =
     (let n = (of_char c :: nat) in if 65 \<le> n \<and> n \<le> 90 then char_of (n + 32) else c)"

definition upper_char :: "char \<Rightarrow> char" where
  "upper_char c =
     (let n = (of_char c :: nat) in if 97 \<le> n \<and> n \<le> 122 then char_of (n - 32) else c)"

definition lower :: "string \<Rightarrow> string" where
  "lower s = map lower_char s"

definition upper :: "string \<Rightarrow> string" where
  "upper s = map upper_char s"

definition lstrip :: "string \<Rightarrow> string" where
  "lstrip s = dropWhile is_space s"

definition rstrip :: "string \<Rightarrow> string" where
  "rstrip s = rev (dropWhile is_space (rev s))"

definition strip :: "string \<Rightarrow> string" where
  "strip s = rstrip (lstrip s)"

definition rstrip_chars :: "string \<Rightarrow> string \<Rightarrow> string" where
  \<comment> \<open>\<^verbatim>\<open>s.rstrip(chars)\<close>: drops the whole trailing run of characters of \<open>chars\<close>\<close>
  "rstrip_chars chars s = rev (dropWhile (\<lambda>c. c \<in> set chars) (rev s))"

definition replace_char :: "char \<Rightarrow> char \<Rightarrow> string \<Rightarrow> string" where
  \<comment> \<open>\<^verbatim>\<open>s.replace(x, y)\<close> for one-character \<open>x\<close> and \<open>y\<close>\<close>
  "replace_char x y s = map (\<lambda>c. if c = x then y else c) s"

definition startswith :: "string \<Rightarrow> string \<Rightarrow> bool" where
  "startswith s p \<longleftrightarrow> take (length p) s = p"

function re_sub_ws :: "string \<Rightarrow> string" where
  \<comment> \<open>\<^verbatim>\<open>re.sub(r'\s+', ' ', s)\<close>: every maximal run of whitespace becomes one space\<close>
  "re_sub_ws [] = []"
| "re_sub_ws (c # cs) =
     (if is_space c then CHR '' '' # re_sub_ws (dropWhile is_space cs) else c # re_sub_ws cs)"
  by pat_completeness auto
termination
  by (relation "measure length") (auto simp: length_dropWhile_le less_Suc_eq_le)

subsection \<open>SQL normaliser\<close>

definition normalize_sql :: "string \<Rightarrow> string" where
  "normalize_sql sql =
     (let sql = strip (lower sql);
          sql = re_sub_ws sql;
          sql = rstrip_chars '';'' sql;
          sql = replace_char CHR 0x22 CHR 0x27 sql
      in sql)"

text \<open>
  The transform sequence as the specification words it, for comparison with
  \<^const>\<open>normalize_sql\<close>: lowercase, collapse whitespace runs, trim, strip one
  trailing semicolon, unify quotes.
\<close>

definition strip_one_semicolon :: "string \<Rightarrow> string" where
  "strip_one_semicolon s = (if s \<noteq> [] \<and> last s = CHR '';'' then butlast s else s)"

definition normalize_spec :: "string \<Rightarrow> string" where
  "normalize_spec sql =
     replace_char CHR 0x22 CHR 0x27 (strip_one_semicolon (strip (re_sub_ws (lower sql))))"

text \<open>The same sequence with the semicolon step as the code has it: the whole trailing run.\<close>

definition normalize_spec_all_semicolons :: "string \<Rightarrow> string" where
  "normalize_spec_all_semicolons sql =
     replace_char CHR 0x22 CHR 0x27 (rstrip_chars '';'' (strip (re_sub_ws (lower sql))))"

text \<open>A string is collapsed when each of its whitespace characters is a lone space.\<close>

fun collapsed :: "string \<Rightarrow> bool" where
  "collapsed [] = True"
| "collapsed [c] = (is_space c \<longrightarrow> c = CHR '' '')"
| "collapsed (c # d # r) =
     ((is_space c \<longrightarrow> c = CHR '' '' \<and> \<not> is_space d) \<and> collapsed (d # r))"

text \<open>The quote step of the normaliser, per character.\<close>

definition unify_quote :: "char \<Rightarrow> char" where
  "unify_quote c = (if c = CHR 0x22 then CHR 0x27 else c)"

subsection \<open>Corpus sampler\<close>

text \<open>
  A test case is a JSON object, loaded as a Python \<^verbatim>\<open>dict\<close>: here the list of its
  key/value pairs. \<^verbatim>\<open>item['sql']\<close> raises \<^verbatim>\<open>KeyError\<close> when the key is missing.
\<close>

type_synonym item = "(string \<times> string) list"

datatype py_error = KeyError string

definition getitem :: "item \<Rightarrow> string \<Rightarrow> py_error + string" where
  "getitem it k = (case map_of it k of None \<Rightarrow> Inl (KeyError k) | Some v \<Rightarrow> Inr v)"

text \<open>
  Python slices \<^verbatim>\<open>xs[:k]\<close> and \<^verbatim>\<open>xs[a:b]\<close>: a negative index counts from the end, and
  every index is clamped to the list.
\<close>

definition slice_to :: "'a list \<Rightarrow> int \<Rightarrow> 'a list" where
  "slice_to xs k = (if k < 0 then take (nat (int (length xs) + k)) xs else take (nat k) xs)"

definition slice_index :: "nat \<Rightarrow> int \<Rightarrow> nat" where
  "slice_index n k = (if k < 0 then nat (int n + k) else min (nat k) n)"

definition slice :: "'a list \<Rightarrow> int \<Rightarrow> int \<Rightarrow> 'a list" where
  "slice xs a b = drop (slice_index (length xs) a) (take (slice_index (length xs) b) xs)"

text \<open>
  The list comprehension
  \<^verbatim>\<open>[item for item in self.test_data if item['sql'].strip().upper().startswith(kw)]\<close>.
\<close>

fun queries_starting :: "string \<Rightarrow> item list \<Rightarrow> py_error + item list" where
  "queries_starting kw [] = Inr []"
| "queries_starting kw (it # rest) =
     (case getitem it ''sql'' of
        Inl e \<Rightarrow> Inl e
      | Inr s \<Rightarrow>
          (case queries_starting kw rest of
             Inl e \<Rightarrow> Inl e
           | Inr ys \<Rightarrow> Inr (if startswith (upper (strip s)) kw then it # ys else ys)))"

definition select_test_subset :: "item list \<Rightarrow> int \<Rightarrow> py_error + item list" where
  "select_test_subset test_data count =
     (if count \<ge> int (length test_data) then Inr test_data
      else
        case queries_starting ''SELECT'' test_data of Inl e \<Rightarrow> Inl e | Inr select_queries \<Rightarrow>
        case queries_starting ''INSERT'' test_data of Inl e \<Rightarrow> Inl e | Inr insert_queries \<Rightarrow>
        case queries_starting ''UPDATE'' test_data of Inl e \<Rightarrow> Inl e | Inr update_queries \<Rightarrow>
        case queries_starting ''DELETE'' test_data of Inl e \<Rightarrow> Inl e | Inr delete_queries \<Rightarrow>
        let select_count = min (count div 2) (int (length select_queries));
            insert_count = min (count div 6) (int (length insert_queries));
            update_count = min (count div 6) (int (length update_queries));
            delete_count = count - select_count - insert_count - update_count;
            delete_count = min delete_count (int (length delete_queries));
            selected_data = slice_to select_queries select_count
                              @ slice_to insert_queries insert_count
                              @ slice_to update_queries update_count
                              @ slice_to delete_queries delete_count;
            remaining = count - int (length selected_data);
            selected_data =
              (if remaining > 0
               then selected_data @ slice select_queries select_count (select_count + remaining)
               else selected_data)
        in Inr (slice_to selected_data count))"

text \<open>
  Two descriptions of the selection, on lists instead of slices. Both use four buckets by
  leading keyword, stable prefixes, backfill from the unused tail of the SELECT bucket and
  truncation to \<open>count\<close>; they differ in the DELETE quota.

  \<^item> \<open>sample_spec\<close> is the policy as the specification words it: the quotas are
    \<open>count div 2\<close>, \<open>count div 6\<close>, \<open>count div 6\<close> and
    \<open>count - count div 2 - count div 6 - count div 6\<close>, and each quota is then capped at
    the size of its bucket.
  \<^item> \<open>sample_policy\<close> caps the SELECT, INSERT and UPDATE quotas first and gives DELETE
    what these three left of \<open>count\<close>, capped at the DELETE bucket.
\<close>

definition well_formed :: "item list \<Rightarrow> bool" where
  "well_formed corpus \<longleftrightarrow> list_all (\<lambda>it. map_of it ''sql'' \<noteq> None) corpus"

definition leading_keyword :: "string \<Rightarrow> item \<Rightarrow> bool" where
  "leading_keyword kw it =
     (case map_of it ''sql'' of None \<Rightarrow> False | Some s \<Rightarrow> startswith (upper (strip s)) kw)"

definition bucket :: "string \<Rightarrow> item list \<Rightarrow> item list" where
  "bucket kw corpus = filter (leading_keyword kw) corpus"

definition sample_spec :: "item list \<Rightarrow> nat \<Rightarrow> item list" where
  "sample_spec corpus count =
     (let selects = bucket ''SELECT'' corpus;
          inserts = bucket ''INSERT'' corpus;
          updates = bucket ''UPDATE'' corpus;
          deletes = bucket ''DELETE'' corpus;
          select_quota = count div 2;
          insert_quota = count div 6;
          update_quota = count div 6;
          delete_quota = count - select_quota - insert_quota - update_quota;
          picked = take (min select_quota (length selects)) selects
                     @ take (min insert_quota (length inserts)) inserts
                     @ take (min update_quota (length updates)) updates
                     @ take (min delete_quota (length deletes)) deletes;
          backfill = take (count - length picked) (drop (min select_quota (length selects)) selects)
      in take count (picked @ backfill))"

definition sample_policy :: "item list \<Rightarrow> nat \<Rightarrow> item list" where
  "sample_policy corpus count =
     (let selects = bucket ''SELECT'' corpus;
          inserts = bucket ''INSERT'' corpus;
          updates = bucket ''UPDATE'' corpus;
          deletes = bucket ''DELETE'' corpus;
          select_taken = min (count div 2) (length selects);
          insert_taken = min (count div 6) (length inserts);
          update_taken = min (count div 6) (length updates);
          delete_taken = min (count - select_taken - insert_taken - update_taken) (length deletes);
          picked = take select_taken selects @ take insert_taken inserts
                     @ take update_taken updates @ take delete_taken deletes;
          backfill = take (count - length picked) (drop select_taken selects)
      in take count (picked @ backfill))"

text \<open>Test fixtures: a record with both fields, and small corpora.\<close>

definition test_case :: "string \<Rightarrow> string \<Rightarrow> item" where
  "test_case q s = [(''question'', q), (''sql'', s)]"

definition three_selects :: "item list" where
  "three_selects =
     [test_case ''q1'' ''SELECT 1'', test_case ''q2'' ''SELECT 2'', test_case ''q3'' ''SELECT 3'']"

definition mixed_corpus :: "item list" where
  "mixed_corpus =
     [test_case ''s0'' ''SELECT 0'', test_case ''i0'' ''INSERT 0'', test_case ''s1'' ''select 1'',
      test_case ''u0'' ''UPDATE 0'', test_case ''s2'' '' Select 2'', test_case ''d0'' ''DELETE 0'',
      test_case ''s3'' ''SELECT 3'', test_case ''i1'' ''insert 1'', test_case ''s4'' ''SELECT 4'',
      test_case ''u1'' ''update 1'', test_case ''s5'' ''SELECT 5'', test_case ''d1'' ''delete 1'',
      test_case ''s6'' ''SELECT 6'', test_case ''i2'' ''INSERT 2'', test_case ''s7'' ''SELECT 7'',
      test_case ''u2'' ''UPDATE 2'', test_case ''s8'' ''SELECT 8'', test_case ''s9'' ''SELECT 9'']"

definition select_delete_corpus :: "item list" where
  "select_delete_corpus =
     [test_case ''s0'' ''SELECT 0'', test_case ''s1'' ''SELECT 1'', test_case ''d0'' ''DELETE 0'',
      test_case ''s2'' ''SELECT 2'', test_case ''s3'' ''SELECT 3'', test_case ''d1'' ''DELETE 1'',
      test_case ''s4'' ''SELECT 4'', test_case ''s5'' ''SELECT 5'', test_case ''d2'' ''DELETE 2'',
      test_case ''s6'' ''SELECT 6'', test_case ''s7'' ''SELECT 7'', test_case ''d3'' ''DELETE 3'',
      test_case ''s8'' ''SELECT 8'', test_case ''s9'' ''SELECT 9'', test_case ''d4'' ''DELETE 4'']"

definition no_sql_corpus :: "item list" where
  "no_sql_corpus = [test_case ''q1'' ''SELECT 1'', [(''question'', ''q2'')], test_case ''q3'' ''SELECT 3'']"

subsection \<open>Similarity scorer\<close>

text \<open>
  \<^verbatim>\<open>sql_similarity\<close> normalises both statements and returns
  \<^verbatim>\<open>SequenceMatcher(None, norm_sql1, norm_sql2).ratio()\<close>. The matcher is the standard
  library's: no junk predicate, \<^verbatim>\<open>autojunk\<close> on. The model follows it function by function.

  \<^item> \<open>popular\<close>, \<open>b2j\<close>: \<^verbatim>\<open>__chain_b\<close>. The index of the second sequence maps an
    element to the ascending list of its positions; for a second sequence of 200 elements
    or more, an element occurring more than \<^verbatim>\<open>n // 100 + 1\<close> times is dropped from the index.
  \<^item> \<open>scan_row\<close>, \<open>scan_rows\<close>, \<open>extend_back\<close>, \<open>extend_forward\<close>,
    \<open>find_longest_match\<close>: \<^verbatim>\<open>find_longest_match\<close>. The dictionary \<^verbatim>\<open>j2len\<close> is a
    function with default \<open>0\<close>, \<^verbatim>\<open>j2len.get(j-1, 0)\<close> is \<open>j2len_get\<close> (Python looks up key
    \<open>-1\<close> at \<open>j = 0\<close>, which is never set). With no junk, the two junk-extension loops of
    the library do nothing and the two remaining loops are \<open>extend_back\<close> and
    \<open>extend_forward\<close>.
  \<^item> \<open>matching_blocks_loop\<close>, \<open>collapse_adjacent\<close>, \<open>get_matching_blocks\<close>:
    \<^verbatim>\<open>get_matching_blocks\<close>. The work list is a stack whose top is the head of the list.
  \<^item> \<open>calculate_ratio\<close>, \<open>ratio\<close>: \<^verbatim>\<open>_calculate_ratio\<close> and \<^verbatim>\<open>ratio\<close>.
\<close>

type_synonym match = "nat \<times> nat \<times> nat"

definition popular :: "'a list \<Rightarrow> 'a \<Rightarrow> bool" where
  "popular b elt \<longleftrightarrow> 200 \<le> length b \<and> length b div 100 + 1 < count_list b elt"

definition b2j :: "'a list \<Rightarrow> 'a \<Rightarrow> nat list" where
  "b2j b elt = (if popular b elt then [] else filter (\<lambda>j. b ! j = elt) [0..<length b])"

definition j2len_get :: "(nat \<Rightarrow> nat) \<Rightarrow> nat \<Rightarrow> nat" where
  "j2len_get j2len j = (if j = 0 then 0 else j2len (j - 1))"

fun scan_row ::
  "nat \<Rightarrow> nat \<Rightarrow> nat \<Rightarrow> (nat \<Rightarrow> nat) \<Rightarrow> nat list \<Rightarrow> (nat \<Rightarrow> nat) \<times> match \<Rightarrow> (nat \<Rightarrow> nat) \<times> match"
where
  "scan_row i blo bhi j2len [] st = st"
| "scan_row i blo bhi j2len (j # js) (newj2len, (besti, bestj, bestsize)) =
     (if j < blo then scan_row i blo bhi j2len js (newj2len, (besti, bestj, bestsize))
      else if j \<ge> bhi then (newj2len, (besti, bestj, bestsize))
      else
        let k = j2len_get j2len j + 1 in
        scan_row i blo bhi j2len js
          (newj2len(j := k),
           if k > bestsize then (i + 1 - k, j + 1 - k, k) else (besti, bestj, bestsize)))"

fun scan_rows ::
  "'a list \<Rightarrow> 'a list \<Rightarrow> nat \<Rightarrow> nat \<Rightarrow> nat list \<Rightarrow> (nat \<Rightarrow> nat) \<times> match \<Rightarrow> match"
where
  "scan_rows a b blo bhi [] (j2len, best) = best"
| "scan_rows a b blo bhi (i # rows) (j2len, best) =
     scan_rows a b blo bhi rows (scan_row i blo bhi j2len (b2j b (a ! i)) (\<lambda>_. 0, best))"

function extend_back :: "'a list \<Rightarrow> 'a list \<Rightarrow> nat \<Rightarrow> nat \<Rightarrow> match \<Rightarrow> match" where
  "extend_back a b alo blo (besti, bestj, bestsize) =
     (if besti > alo \<and> bestj > blo \<and> a ! (besti - 1) = b ! (bestj - 1)
      then extend_back a b alo blo (besti - 1, bestj - 1, bestsize + 1)
      else (besti, bestj, bestsize))"
  by pat_completeness auto
termination
  by (relation "measure (\<lambda>(a, b, alo, blo, besti, bestj, bestsize). besti)") auto

function extend_forward :: "'a list \<Rightarrow> 'a list \<Rightarrow> nat \<Rightarrow> nat \<Rightarrow> match \<Rightarrow> match" where
  "extend_forward a b ahi bhi (besti, bestj, bestsize) =
     (if besti + bestsize < ahi \<and> bestj + bestsize < bhi
         \<and> a ! (besti + bestsize) = b ! (bestj + bestsize)
      then extend_forward a b ahi bhi (besti, bestj, bestsize + 1)
      else (besti, bestj, bestsize))"
  by pat_completeness auto
termination
  by (relation "measure (\<lambda>(a, b, ahi, bhi, besti, bestj, bestsize). ahi - (besti + bestsize))")
    auto

definition find_longest_match ::
  "'a list \<Rightarrow> 'a list \<Rightarrow> nat \<Rightarrow> nat \<Rightarrow> nat \<Rightarrow> nat \<Rightarrow> match"
where
  "find_longest_match a b alo ahi blo bhi =
     extend_forward a b ahi bhi
       (extend_back a b alo blo
          (scan_rows a b blo bhi [alo..<ahi] (\<lambda>_. 0, (alo, blo, 0))))"

function matching_blocks_loop ::
  "'a list \<Rightarrow> 'a list \<Rightarrow> (nat \<times> nat \<times> nat \<times> nat) list \<Rightarrow> match list \<Rightarrow> match list"
where
  "matching_blocks_loop a b [] matching_blocks = matching_blocks"
| "matching_blocks_loop a b ((alo, ahi, blo, bhi) # queue) matching_blocks =
     (case find_longest_match a b alo ahi blo bhi of (i, j, k) \<Rightarrow>
        if k \<noteq> 0 then
          let queue = (if alo < i \<and> blo < j then (alo, i, blo, j) # queue else queue);
              queue = (if i + k < ahi \<and> j + k < bhi then (i + k, ahi, j + k, bhi) # queue
                       else queue)
          in matching_blocks_loop a b queue (matching_blocks @ [(i, j, k)])
        else matching_blocks_loop a b queue matching_blocks)"
  by pat_completeness auto

fun collapse_adjacent :: "match \<Rightarrow> match list \<Rightarrow> match list" where
  "collapse_adjacent (i1, j1, k1) [] = (if k1 \<noteq> 0 then [(i1, j1, k1)] else [])"
| "collapse_adjacent (i1, j1, k1) ((i2, j2, k2) # rest) =
     (if i1 + k1 = i2 \<and> j1 + k1 = j2 then collapse_adjacent (i1, j1, k1 + k2) rest
      else (if k1 \<noteq> 0 then [(i1, j1, k1)] else []) @ collapse_adjacent (i2, j2, k2) rest)"

definition get_matching_blocks :: "'a list \<Rightarrow> 'a list \<Rightarrow> match list" where
  "get_matching_blocks a b =
     (let la = length a; lb = length b;
          matching_blocks = matching_blocks_loop a b [(0, la, 0, lb)] [];
          non_adjacent = collapse_adjacent (0, 0, 0) (sort matching_blocks)
      in non_adjacent @ [(la, lb, 0)])"

definition calculate_ratio :: "nat \<Rightarrow> nat \<Rightarrow> rat" where
  "calculate_ratio matches len = (if len \<noteq> 0 then 2 * of_nat matches / of_nat len else 1)"

definition ratio :: "'a list \<Rightarrow> 'a list \<Rightarrow> rat" where
  "ratio a b =
     (let matches = sum_list (map (\<lambda>(i, j, k). k) (get_matching_blocks a b))
      in calculate_ratio matches (length a + length b))"

text \<open>
  The number of matching characters, which \<^verbatim>\<open>ratio\<close> computes as
  \<^verbatim>\<open>sum(triple[-1] for triple in self.get_matching_blocks())\<close>.
\<close>

definition matches :: "'a list \<Rightarrow> 'a list \<Rightarrow> nat" where
  "matches a b = sum_list (map (\<lambda>(i, j, k). k) (get_matching_blocks a b))"

definition sql_similarity :: "string \<Rightarrow> string \<Rightarrow> rat" where
  "sql_similarity sql1 sql2 =
     (let norm_sql1 = normalize_sql sql1;
          norm_sql2 = normalize_sql sql2
      in ratio norm_sql1 norm_sql2)"

text \<open>
  Auxiliary notions for the proofs about equal arguments: one step of the inner loop of
  \<open>scan_row\<close>, the length of the run of indexed elements that ends at a position, and the
  invariant of the outer loop when both sequences are the same.
\<close>

definition row_step :: "nat \<Rightarrow> (nat \<Rightarrow> nat) \<Rightarrow> nat \<Rightarrow> (nat \<Rightarrow> nat) \<times> match \<Rightarrow> (nat \<Rightarrow> nat) \<times> match" where
  "row_step i j2len j st =
     (case st of (newj2len, (besti, bestj, bestsize)) \<Rightarrow>
        let k = j2len_get j2len j + 1 in
        (newj2len(j := k),
         if k > bestsize then (i + 1 - k, j + 1 - k, k) else (besti, bestj, bestsize)))"

fun diag_run :: "'a list \<Rightarrow> nat \<Rightarrow> nat" where
  "diag_run x 0 = (if popular x (x ! 0) then 0 else 1)"
| "diag_run x (Suc j) = (if popular x (x ! Suc j) then 0 else diag_run x j + 1)"

definition diag_inv :: "'a list \<Rightarrow> nat \<Rightarrow> (nat \<Rightarrow> nat) \<Rightarrow> match \<Rightarrow> bool" where
  "diag_inv x i j2len best \<longleftrightarrow>
     (case best of (besti, bestj, bestsize) \<Rightarrow>
        (\<forall>j<i. j2len j \<le> diag_run x j)
      \<and> j2len_get j2len i = j2len_get (diag_run x) i
      \<and> (\<forall>j\<ge>i. j2len j \<le> j2len_get (diag_run x) i)
      \<and> (\<forall>j<i. diag_run x j \<le> bestsize)
      \<and> besti = bestj)"

subsection \<open>Executor\<close>

text \<open>
  What \<^verbatim>\<open>execute_sql\<close> returns next to the success flag: the list of rows of
  \<^verbatim>\<open>fetchall()\<close>, the integer \<^verbatim>\<open>rowcount\<close>, or the message \<^verbatim>\<open>str(e)\<close>. A row is a tuple
  of SQLite values. \<open>py_eq\<close> is Python's \<^verbatim>\<open>==\<close> on these: lists and tuples compare by
  length and element by element, an integer equals a real of the same value, and values
  of different kinds differ.
\<close>

datatype sql_value = SqlNull | SqlInt int | SqlReal rat | SqlText string | SqlBlob string

type_synonym row = "sql_value list"

datatype py_value = PyRows "row list" | PyInt int | PyStr string

fun value_eq :: "sql_value \<Rightarrow> sql_value \<Rightarrow> bool" where
  "value_eq (SqlInt i) (SqlReal r) \<longleftrightarrow> of_int i = r"
| "value_eq (SqlReal r) (SqlInt i) \<longleftrightarrow> r = of_int i"
| "value_eq u v \<longleftrightarrow> u = v"

fun py_eq :: "py_value \<Rightarrow> py_value \<Rightarrow> bool" where
  "py_eq (PyRows rs) (PyRows rs') \<longleftrightarrow> list_all2 (list_all2 value_eq) rs rs'"
| "py_eq (PyInt m) (PyInt n) \<longleftrightarrow> m = n"
| "py_eq (PyStr s) (PyStr t) \<longleftrightarrow> s = t"
| "py_eq u v \<longleftrightarrow> False"

text \<open>
  The database engine is \<^verbatim>\<open>sqlite3\<close>, which is not part of the repository: it is a
  parameter of the model. Each call of the engine takes the state of the database (the
  file together with the open transaction) and returns the new state with either a value
  or, as \<open>Inl\<close>, the message of the exception it raises; all exceptions of \<^verbatim>\<open>sqlite3\<close>
  derive from \<^verbatim>\<open>Exception\<close>. \<open>execute\<close> returns the \<^verbatim>\<open>rowcount\<close> of the cursor.
  \<^verbatim>\<open>conn.cursor()\<close> and the attribute \<^verbatim>\<open>cursor.rowcount\<close> do not reach the database and are
  no calls of the engine; \<^verbatim>\<open>conn.close()\<close> does not raise.
\<close>

record 'db engine =
  connect :: "'db \<Rightarrow> (string + unit) \<times> 'db"
  execute :: "string \<Rightarrow> 'db \<Rightarrow> (string + int) \<times> 'db"
  fetchall :: "'db \<Rightarrow> (string + row list) \<times> 'db"
  commit :: "'db \<Rightarrow> (string + unit) \<times> 'db"
  close :: "'db \<Rightarrow> 'db"

text \<open>
  The world the evaluator runs in: the state of the database, the state of the language
  model, the number of connections that are open, and the calls made to the engine so
  far, in order.
\<close>

datatype event = Connect | Execute string | Fetchall | Commit | Close

record ('db, 'llm) world =
  db :: 'db
  llm :: 'llm
  open_connections :: nat
  trace :: "event list"

definition call ::
  "event \<Rightarrow> ('db \<Rightarrow> (string + 'a) \<times> 'db) \<Rightarrow> ('db, 'llm) world \<Rightarrow> (string + 'a) \<times> ('db, 'llm) world"
where
  "call ev f w = (case f (db w) of (r, s) \<Rightarrow> (r, w\<lparr>db := s, trace := trace w @ [ev]\<rparr>))"

definition conn_open :: "('db, 'llm) world \<Rightarrow> ('db, 'llm) world" where
  "conn_open w = w\<lparr>open_connections := open_connections w + 1\<rparr>"

definition conn_close :: "'db engine \<Rightarrow> ('db, 'llm) world \<Rightarrow> ('db, 'llm) world" where
  "conn_close E w = w\<lparr>db := close E (db w), open_connections := open_connections w - 1,
                       trace := trace w @ [Close]\<rparr>"

text \<open>
  \<open>execute_sql_try\<close> is the body of the \<^verbatim>\<open>try\<close> block of \<^verbatim>\<open>execute_sql\<close>: it returns the
  pair the block returns, or the message of the exception raised in it together with
  whether \<^verbatim>\<open>conn\<close> was bound by then. \<open>execute_sql\<close> adds the handler
  \<^verbatim>\<open>except Exception as e\<close>, which closes the connection if \<^verbatim>\<open>'conn' in locals()\<close> and
  returns \<^verbatim>\<open>(False, str(e))\<close>.
\<close>

definition execute_sql_try ::
  "'db engine \<Rightarrow> string \<Rightarrow> ('db, 'llm) world
     \<Rightarrow> (string \<times> bool + bool \<times> py_value) \<times> ('db, 'llm) world"
where
  "execute_sql_try E sql w =
     (case call Connect (connect E) w of
        (Inl e, w) \<Rightarrow> (Inl (e, False), w)
      | (Inr conn, w) \<Rightarrow>
          let w = conn_open w in
          if startswith (upper (strip sql)) ''SELECT'' then
            (case call (Execute sql) (execute E sql) w of
               (Inl e, w) \<Rightarrow> (Inl (e, True), w)
             | (Inr rowcount, w) \<Rightarrow>
                 (case call Fetchall (fetchall E) w of
                    (Inl e, w) \<Rightarrow> (Inl (e, True), w)
                  | (Inr results, w) \<Rightarrow> (Inr (True, PyRows results), conn_close E w)))
          else
            (case call (Execute sql) (execute E sql) w of
               (Inl e, w) \<Rightarrow> (Inl (e, True), w)
             | (Inr affected_rows, w) \<Rightarrow>
                 (case call Commit (commit E) w of
                    (Inl e, w) \<Rightarrow> (Inl (e, True), w)
                  | (Inr done, w) \<Rightarrow> (Inr (True, PyInt affected_rows), conn_close E w))))"

definition execute_sql ::
  "'db engine \<Rightarrow> string \<Rightarrow> ('db, 'llm) world \<Rightarrow> (bool \<times> py_value) \<times> ('db, 'llm) world"
where
  "execute_sql E sql w =
     (case execute_sql_try E sql w of
        (Inr r, w) \<Rightarrow> (r, w)
      | (Inl (e, conn_in_locals), w) \<Rightarrow>
          ((False, PyStr e), if conn_in_locals then conn_close E w else w))"

subsection \<open>Per-case evaluator\<close>

text \<open>
  \<^verbatim>\<open>generate_sql\<close> asks the language model and returns its cleaned answer, or the empty
  string when the call raises: here a function \<open>G\<close> from the question and the state of the
  model to the statement returned and the new state. In \<^verbatim>\<open>evaluate_single_query\<close> the
  entry \<^verbatim>\<open>execution_result\<close> is \<^verbatim>\<open>exec_result if is_executable else str(exec_result)\<close>;
  a failed execution returns a message, which \<^verbatim>\<open>str\<close> leaves as it is (lemma
  \<open>execute_sql_failure_payload\<close>), so both branches store \<^verbatim>\<open>exec_result\<close>.
\<close>

definition exact_match_score :: "string \<Rightarrow> string \<Rightarrow> rat" where
  "exact_match_score predicted_sql reference_sql =
     (let norm_pred = normalize_sql predicted_sql;
          norm_ref = normalize_sql reference_sql
      in if norm_pred = norm_ref then 1 else 0)"

definition execution_accuracy ::
  "'db engine \<Rightarrow> string \<Rightarrow> string \<Rightarrow> ('db, 'llm) world \<Rightarrow> rat \<times> ('db, 'llm) world"
where
  "execution_accuracy E predicted_sql reference_sql w =
     (case execute_sql E predicted_sql w of ((pred_success, pred_result), w) \<Rightarrow>
      case execute_sql E reference_sql w of ((ref_success, ref_result), w) \<Rightarrow>
        (if pred_success \<and> ref_success then
           (if py_eq pred_result ref_result then 1 else 0)
         else if \<not> pred_success \<and> \<not> ref_success then 1
         else 0, w))"

record case_result =
  question :: string
  reference_sql :: string
  predicted_sql :: string
  exact_match :: rat
  similarity :: rat
  exec_accuracy :: rat
  is_executable :: bool
  execution_result :: py_value

definition generate_sql ::
  "(string \<Rightarrow> 'llm \<Rightarrow> string \<times> 'llm) \<Rightarrow> string \<Rightarrow> ('db, 'llm) world \<Rightarrow> string \<times> ('db, 'llm) world"
where
  "generate_sql G q w = (case G q (llm w) of (sql, l) \<Rightarrow> (sql, w\<lparr>llm := l\<rparr>))"

definition evaluate_single_query ::
  "'db engine \<Rightarrow> (string \<Rightarrow> 'llm \<Rightarrow> string \<times> 'llm) \<Rightarrow> string \<Rightarrow> string \<Rightarrow> ('db, 'llm) world
     \<Rightarrow> case_result \<times> ('db, 'llm) world"
where
  "evaluate_single_query E G q ref w =
     (case generate_sql G q w of (pred, w) \<Rightarrow>
      let em = exact_match_score pred ref;
          sim = sql_similarity pred ref
      in case execution_accuracy E pred ref w of (acc, w) \<Rightarrow>
         case execute_sql E pred w of ((executable, exec_result), w) \<Rightarrow>
           (\<lparr>question = q, reference_sql = ref, predicted_sql = pred,
             exact_match = em, similarity = sim, exec_accuracy = acc,
             is_executable = executable, execution_result = exec_result\<rparr>, w))"

subsection \<open>Aggregator\<close>

text \<open>
  \<^verbatim>\<open>np.mean\<close> of an empty list is \<^verbatim>\<open>nan\<close> (with a warning, not an exception); booleans
  count as \<open>0\<close> and \<open>1\<close>. \<^verbatim>\<open>item['question']\<close> and \<^verbatim>\<open>item['sql']\<close> raise \<^verbatim>\<open>KeyError\<close> on
  a record without the key. The dictionary key \<^verbatim>\<open>execution_accuracy\<close> of the report is the
  field \<open>execution_accuracy_mean\<close>.
\<close>

datatype np_float = NaN | Finite rat

definition np_mean :: "rat list \<Rightarrow> np_float" where
  "np_mean xs = (if xs = [] then NaN else Finite (sum_list xs / of_nat (length xs)))"

record report =
  total_samples :: nat
  exact_match_accuracy :: np_float
  average_similarity :: np_float
  execution_accuracy_mean :: np_float
  execution_success_rate :: np_float
  detailed_results :: "case_result list"

fun evaluate_loop ::
  "'db engine \<Rightarrow> (string \<Rightarrow> 'llm \<Rightarrow> string \<times> 'llm) \<Rightarrow> item list \<Rightarrow> case_result list
     \<Rightarrow> ('db, 'llm) world \<Rightarrow> (py_error + case_result list) \<times> ('db, 'llm) world"
where
  "evaluate_loop E G [] results w = (Inr results, w)"
| "evaluate_loop E G (it # rest) results w =
     (case getitem it ''question'' of
        Inl e \<Rightarrow> (Inl e, w)
      | Inr q \<Rightarrow>
     (case getitem it ''sql'' of
        Inl e \<Rightarrow> (Inl e, w)
      | Inr s \<Rightarrow>
     (case evaluate_single_query E G q s w of
        (result, w) \<Rightarrow> evaluate_loop E G rest (results @ [result]) w)))"

definition evaluate_dataset ::
  "'db engine \<Rightarrow> (string \<Rightarrow> 'llm \<Rightarrow> string \<times> 'llm) \<Rightarrow> item list \<Rightarrow> ('db, 'llm) world
     \<Rightarrow> (py_error + report) \<times> ('db, 'llm) world"
where
  "evaluate_dataset E G test_data w =
     (case evaluate_loop E G test_data [] w of
        (Inl e, w) \<Rightarrow> (Inl e, w)
      | (Inr results, w) \<Rightarrow>
          let exact_matches = map exact_match results;
              similarities = map similarity results;
              exec_accuracies = map exec_accuracy results;
              executabilities = map (\<lambda>r. of_bool (is_executable r)) results
          in (Inr \<lparr>total_samples = length results,
                    exact_match_accuracy = np_mean exact_matches,
                    average_similarity = np_mean similarities,
                    execution_accuracy_mean = np_mean exec_accuracies,
                    execution_success_rate = np_mean executabilities,
                    detailed_results = results\<rparr>, w))"

subsection \<open>Outcomes, as the specification words them\<close>

text \<open>
  The specification speaks of the outcome of an execution: success with a payload, or
  failure with a message. \<open>outcome\<close> reads it off the \<^verbatim>\<open>try\<close> block; \<open>accuracy_of_outcomes\<close>
  is the score the specification assigns to two outcomes.
\<close>

datatype outcome = Success py_value | Failure string

definition outcome ::
  "'db engine \<Rightarrow> string \<Rightarrow> ('db, 'llm) world \<Rightarrow> outcome"
where
  "outcome E sql w =
     (case fst (execute_sql_try E sql w) of
        Inl (msg, conn_in_locals) \<Rightarrow> Failure msg
      | Inr (ok, payload) \<Rightarrow> Success payload)"

fun accuracy_of_outcomes :: "outcome \<Rightarrow> outcome \<Rightarrow> rat" where
  "accuracy_of_outcomes (Success p) (Success r) = (if py_eq p r then 1 else 0)"
| "accuracy_of_outcomes (Failure m) (Failure n) = 1"
| "accuracy_of_outcomes (Success p) (Failure n) = 0"
| "accuracy_of_outcomes (Failure m) (Success r) = 0"

subsection \<open>A small engine for examples\<close>

text \<open>
  A database with one table \<^verbatim>\<open>t\<close> of one integer key column: the stored rows and the rows
  as the open connection sees them. It understands three statements, whatever their
  case and surrounding whitespace, and rejects every other one. \<open>echo_llm\<close> is a model
  that answers every question with the question itself.
\<close>

record toy_db =
  stored :: "int list"
  working :: "int list"

definition toy_execute :: "string \<Rightarrow> toy_db \<Rightarrow> (string + int) \<times> toy_db" where
  "toy_execute sql s =
     (let stmt = upper (strip sql) in
      if stmt = ''SELECT ID FROM T'' then (Inr (- 1), s)
      else if stmt = ''INSERT INTO T VALUES (1)'' then
        (if 1 \<in> set (working s) then (Inl ''UNIQUE constraint failed: t.id'', s)
         else (Inr 1, s\<lparr>working := working s @ [1]\<rparr>))
      else if stmt = ''DELETE FROM T'' then
        (Inr (int (length (working s))), s\<lparr>working := []\<rparr>)
      else (Inl ''syntax error'', s))"

definition toy_engine :: "toy_db engine" where
  "toy_engine =
     \<lparr>connect = (\<lambda>s. (Inr (), s\<lparr>working := stored s\<rparr>)),
      execute = toy_execute,
      fetchall = (\<lambda>s. (Inr (map (\<lambda>i. [SqlInt i]) (working s)), s)),
      commit = (\<lambda>s. (Inr (), s\<lparr>stored := working s\<rparr>)),
      close = (\<lambda>s. s\<lparr>working := stored s\<rparr>)\<rparr>"

definition echo_llm :: "string \<Rightarrow> unit \<Rightarrow> string \<times> unit" where
  "echo_llm q u = (q, u)"

definition toy_world :: "int list \<Rightarrow> (toy_db, unit) world" where
  "toy_world ids = \<lparr>db = \<lparr>stored = ids, working = ids\<rparr>, llm = (), open_connections = 0, trace = []\<rparr>"

section \<open>Properties of the normaliser\<close>

subsection \<open>Trimming and collapsing\<close>

lemma is_space_space: "is_space CHR '' ''"
  by (simp add: is_space_def)

lemma rstrip_fix: "s = [] \<or> \<not> is_space (last s) \<Longrightarrow> rstrip s = s"
  by (cases s rule: rev_cases) (auto simp: rstrip_def)

lemma lstrip_fix: "s = [] \<or> \<not> is_space (hd s) \<Longrightarrow> lstrip s = s"
  by (cases s) (auto simp: lstrip_def)

lemma rstrip_Cons:
  "rstrip (c # cs) = (if is_space c \<and> rstrip cs = [] then [] else c # rstrip cs)"
  by (auto simp: rstrip_def dropWhile_append)

lemma rstrip_Nil_iff: "rstrip s = [] \<longleftrightarrow> (\<forall>c\<in>set s. is_space c)"
  by (simp add: rstrip_def)

lemma all_dropWhile_iff:
  "(\<forall>c\<in>set (dropWhile P xs). P c) \<longleftrightarrow> (\<forall>c\<in>set xs. P c)"
  by (induction xs) auto

lemma re_sub_ws_hd:
  "s \<noteq> [] \<Longrightarrow> \<not> is_space (hd s) \<Longrightarrow> re_sub_ws s \<noteq> [] \<and> hd (re_sub_ws s) = hd s"
  by (cases s) auto

lemma re_sub_ws_Nil_iff [simp]: "re_sub_ws s = [] \<longleftrightarrow> s = []"
  by (cases s) auto

lemma re_sub_ws_no_leading_space:
  "s = [] \<or> \<not> is_space (hd s) \<Longrightarrow> re_sub_ws s = [] \<or> \<not> is_space (hd (re_sub_ws s))"
  using re_sub_ws_hd [of s] by (cases "s = []") auto

lemma dropWhile_no_leading:
  "dropWhile P xs = [] \<or> \<not> P (hd (dropWhile P xs))"
  using hd_dropWhile [of P xs] by blast

lemma collapsed_Cons:
  "collapsed (c # x) \<longleftrightarrow>
     (is_space c \<longrightarrow> c = CHR '' '' \<and> (x = [] \<or> \<not> is_space (hd x))) \<and> collapsed x"
  by (cases x) auto

lemma collapsed_re_sub_ws: "collapsed (re_sub_ws s)"
proof (induction s rule: re_sub_ws.induct)
  case 1
  show ?case by simp
next
  case (2 c cs)
  show ?case
  proof (cases "is_space c")
    case True
    have "re_sub_ws (dropWhile is_space cs) = []
            \<or> \<not> is_space (hd (re_sub_ws (dropWhile is_space cs)))"
      by (rule re_sub_ws_no_leading_space) (rule dropWhile_no_leading)
    with True 2 show ?thesis by (simp add: collapsed_Cons)
  next
    case False
    with 2 show ?thesis by (simp add: collapsed_Cons)
  qed
qed

lemma re_sub_ws_collapsed: "collapsed s \<Longrightarrow> re_sub_ws s = s"
proof (induction s)
  case Nil
  show ?case by simp
next
  case (Cons c s)
  then have s: "re_sub_ws s = s" by (simp add: collapsed_Cons)
  show ?case
  proof (cases "is_space c")
    case True
    with Cons.prems have "c = CHR '' ''" and "s = [] \<or> \<not> is_space (hd s)"
      by (simp_all add: collapsed_Cons)
    then have "dropWhile is_space s = s" by (cases s) auto
    with True s \<open>c = CHR '' ''\<close> show ?thesis by simp
  next
    case False
    with s show ?thesis by simp
  qed
qed

lemma collapsed_append: "collapsed (x @ y) \<Longrightarrow> collapsed x"
proof (induction x)
  case Nil
  show ?case by simp
next
  case (Cons c x)
  then show ?case by (cases x) (auto simp: collapsed_Cons)
qed

lemma collapsed_map:
  assumes "\<And>c. is_space (f c) = is_space c" and "f CHR '' '' = CHR '' ''"
  shows "collapsed x \<Longrightarrow> collapsed (map f x)"
proof (induction x)
  case Nil
  show ?case by simp
next
  case (Cons c x)
  then show ?case using assms by (cases x) (auto simp: collapsed_Cons)
qed

lemma lstrip_re_sub_ws: "lstrip (re_sub_ws s) = re_sub_ws (lstrip s)"
proof (cases s)
  case Nil
  then show ?thesis by (simp add: lstrip_def)
next
  case (Cons c cs)
  show ?thesis
  proof (cases "is_space c")
    case True
    have "re_sub_ws (dropWhile is_space cs) = []
            \<or> \<not> is_space (hd (re_sub_ws (dropWhile is_space cs)))"
      by (rule re_sub_ws_no_leading_space) (rule dropWhile_no_leading)
    then have "lstrip (re_sub_ws (dropWhile is_space cs)) = re_sub_ws (dropWhile is_space cs)"
      by (rule lstrip_fix)
    then show ?thesis using True Cons is_space_space by (simp add: lstrip_def)
  next
    case False
    with Cons show ?thesis by (simp add: lstrip_def)
  qed
qed

lemma lstrip_rstrip_commute: "dropWhile is_space (rstrip s) = rstrip (dropWhile is_space s)"
proof (induction s)
  case Nil
  show ?case by (simp add: rstrip_def)
next
  case (Cons c s)
  show ?case
  proof (cases "is_space c")
    case True
    with Cons show ?thesis by (auto simp: rstrip_Cons)
  next
    case False
    then show ?thesis by (simp add: rstrip_Cons)
  qed
qed

lemma rstrip_re_sub_ws: "rstrip (re_sub_ws s) = re_sub_ws (rstrip s)"
proof (induction s rule: re_sub_ws.induct)
  case 1
  show ?case by (simp add: rstrip_def)
next
  case (2 c cs)
  show ?case
  proof (cases "is_space c")
    case True
    let ?r = "dropWhile is_space cs"
    have ih: "rstrip (re_sub_ws ?r) = re_sub_ws (rstrip ?r)" using 2 True by simp
    have eq: "rstrip ?r = [] \<longleftrightarrow> rstrip cs = []"
      by (simp add: rstrip_Nil_iff all_dropWhile_iff)
    show ?thesis
    proof (cases "rstrip cs = []")
      case empty: True
      with eq ih True is_space_space show ?thesis by (simp add: rstrip_Cons)
    next
      case nonempty: False
      with eq ih True is_space_space show ?thesis
        by (simp add: rstrip_Cons lstrip_rstrip_commute)
    qed
  next
    case False
    with 2 show ?thesis by (simp add: rstrip_Cons)
  qed
qed

lemma strip_re_sub_ws: "strip (re_sub_ws s) = re_sub_ws (strip s)"
  by (simp add: strip_def lstrip_re_sub_ws rstrip_re_sub_ws)

lemma rstrip_chars_prefix: "\<exists>r. s = rstrip_chars cs s @ r"
proof
  show "s = rstrip_chars cs s @ rev (takeWhile (\<lambda>c. c \<in> set cs) (rev s))"
    unfolding rstrip_chars_def
    by (metis rev_append rev_rev_ident takeWhile_dropWhile_id)
qed

lemma rstrip_chars_last:
  "rstrip_chars cs s = [] \<or> last (rstrip_chars cs s) \<notin> set cs"
  unfolding rstrip_chars_def
  using dropWhile_no_leading [of "\<lambda>c. c \<in> set cs" "rev s"]
  by (auto simp: last_rev)

lemma rstrip_chars_fix: "s = [] \<or> last s \<notin> set cs \<Longrightarrow> rstrip_chars cs s = s"
  by (cases s rule: rev_cases) (auto simp: rstrip_chars_def)

lemma rstrip_prefix: "\<exists>r. s = rstrip s @ r"
proof
  show "s = rstrip s @ rev (takeWhile is_space (rev s))"
    unfolding rstrip_def
    by (metis rev_append rev_rev_ident takeWhile_dropWhile_id)
qed

lemma prefix_hd: "s = p @ r \<Longrightarrow> p \<noteq> [] \<Longrightarrow> hd p = hd s"
  by (cases p) auto

lemma strip_no_leading_space: "strip s = [] \<or> \<not> is_space (hd (strip s))"
proof -
  obtain r where r: "lstrip s = strip s @ r"
    using rstrip_prefix [of "lstrip s"] by (auto simp: strip_def)
  have "lstrip s = [] \<or> \<not> is_space (hd (lstrip s))"
    unfolding lstrip_def by (rule dropWhile_no_leading)
  with r show ?thesis by (cases "strip s") auto
qed

lemma set_rstrip_subset: "set (rstrip s) \<subseteq> set s"
  unfolding rstrip_def using set_dropWhileD by fastforce

lemma set_strip_subset: "set (strip s) \<subseteq> set s"
  unfolding strip_def lstrip_def
  using set_rstrip_subset [of "dropWhile is_space s"] set_dropWhileD by fastforce

lemma set_rstrip_chars_subset: "set (rstrip_chars cs s) \<subseteq> set s"
  unfolding rstrip_chars_def using set_dropWhileD by fastforce

lemma set_re_sub_ws_subset: "set (re_sub_ws s) \<subseteq> insert CHR '' '' (set s)"
proof (induction s rule: re_sub_ws.induct)
  case 1
  show ?case by simp
next
  case (2 c cs)
  show ?case
  proof (cases "is_space c")
    case True
    with 2 have "set (re_sub_ws (dropWhile is_space cs))
                   \<subseteq> insert CHR '' '' (set (dropWhile is_space cs))" by simp
    moreover have "set (dropWhile is_space cs) \<subseteq> set cs"
      using set_dropWhileD by fastforce
    ultimately show ?thesis using True by auto
  next
    case False
    with 2 show ?thesis by auto
  qed
qed

lemma lower_char_idem: "lower_char (lower_char c) = lower_char c"
  by (simp add: lower_char_def Let_def)

lemma lower_char_space: "lower_char CHR '' '' = CHR '' ''"
  by (simp add: lower_char_def)

lemma lower_char_quote: "lower_char CHR 0x27 = CHR 0x27"
  by (simp add: lower_char_def)

lemma lower_fix: "(\<forall>c\<in>set s. lower_char c = c) \<Longrightarrow> lower s = s"
  by (simp add: lower_def map_idI)

subsection \<open>Shape of a normalised string\<close>


lemma replace_char_quote: "replace_char CHR 0x22 CHR 0x27 s = map unify_quote s"
  by (simp add: replace_char_def unify_quote_def)

lemma unify_quote_space: "is_space (unify_quote c) = is_space c"
  by (simp add: unify_quote_def is_space_def)

lemma unify_quote_semicolon: "unify_quote c = CHR '';'' \<longleftrightarrow> c = CHR '';''"
  by (simp add: unify_quote_def)

lemma unify_quote_lower: "lower_char c = c \<Longrightarrow> lower_char (unify_quote c) = unify_quote c"
  by (simp add: unify_quote_def lower_char_quote)

lemma normalize_sql_unfold:
  "normalize_sql s = map unify_quote (rstrip_chars '';'' (re_sub_ws (strip (lower s))))"
  by (simp add: normalize_sql_def replace_char_quote)

lemma normalize_sql_lower: "lower (normalize_sql s) = normalize_sql s"
proof (rule lower_fix, rule ballI)
  fix c assume "c \<in> set (normalize_sql s)"
  then obtain d where d: "d \<in> set (rstrip_chars '';'' (re_sub_ws (strip (lower s))))"
    and c: "c = unify_quote d"
    by (auto simp: normalize_sql_unfold)
  from d have "d \<in> insert CHR '' '' (set (strip (lower s)))"
    using set_rstrip_chars_subset set_re_sub_ws_subset by blast
  then have "d = CHR '' '' \<or> d \<in> set (lower s)"
    using set_strip_subset by blast
  then have "lower_char d = d"
    by (auto simp: lower_def lower_char_space lower_char_idem)
  with c show "lower_char c = c" by (simp add: unify_quote_lower)
qed

lemma normalize_sql_no_leading_space:
  "normalize_sql s = [] \<or> \<not> is_space (hd (normalize_sql s))"
proof -
  let ?t = "re_sub_ws (strip (lower s))"
  let ?v = "rstrip_chars '';'' ?t"
  have t: "?t = [] \<or> \<not> is_space (hd ?t)"
    by (rule re_sub_ws_no_leading_space) (rule strip_no_leading_space)
  obtain r where r: "?t = ?v @ r" using rstrip_chars_prefix by blast
  have "?v = [] \<or> \<not> is_space (hd ?v)"
  proof (cases "?v = []")
    case True
    then show ?thesis by simp
  next
    case False
    with r have "hd ?v = hd ?t" by (rule prefix_hd)
    moreover from False r have "?t \<noteq> []" by auto
    ultimately show ?thesis using t by simp
  qed
  then show ?thesis
    by (auto simp: normalize_sql_unfold hd_map unify_quote_space)
qed

lemma normalize_sql_collapsed: "collapsed (normalize_sql s)"
proof -
  let ?t = "re_sub_ws (strip (lower s))"
  obtain r where r: "?t = rstrip_chars '';'' ?t @ r" using rstrip_chars_prefix by blast
  have "collapsed ?t" by (rule collapsed_re_sub_ws)
  with r have "collapsed (rstrip_chars '';'' ?t)" using collapsed_append by metis
  then show ?thesis
    unfolding normalize_sql_unfold
    by (rule collapsed_map [rotated 2]) (simp_all add: unify_quote_space, simp add: unify_quote_def)
qed

lemma normalize_sql_no_trailing_semicolon:
  "normalize_sql s = [] \<or> last (normalize_sql s) \<noteq> CHR '';''"
  using rstrip_chars_last [of "'';''" "re_sub_ws (strip (lower s))"]
  by (auto simp: normalize_sql_unfold last_map unify_quote_semicolon)

lemma normalize_sql_no_double_quote: "CHR 0x22 \<notin> set (normalize_sql s)"
  by (auto simp: normalize_sql_unfold unify_quote_def)

lemma unify_quote_fix: "CHR 0x22 \<notin> set s \<Longrightarrow> map unify_quote s = s"
  by (rule map_idI) (auto simp: unify_quote_def)

lemma length_rstrip_less:
  assumes "s \<noteq> []" and "is_space (last s)"
  shows "length (rstrip s) < length s"
proof -
  from assms obtain xs c where s: "s = xs @ [c]" and c: "is_space c"
    by (cases s rule: rev_cases) auto
  have "length (dropWhile is_space (rev xs)) \<le> length (rev xs)"
    by (rule length_dropWhile_le)
  with s c show ?thesis by (simp add: rstrip_def)
qed

lemma length_rstrip_chars_le: "length (rstrip_chars cs s) \<le> length s"
  using length_dropWhile_le [of "\<lambda>c. c \<in> set cs" "rev s"] by (simp add: rstrip_chars_def)

subsection \<open>Idempotence\<close>

text \<open>
  Claim C3, amended. Normalising twice gives the same string as normalising once
  exactly when the normalised string is empty or does not end in a whitespace character.
\<close>

theorem normalize_sql_idempotent_iff:
  "normalize_sql (normalize_sql s) = normalize_sql s
     \<longleftrightarrow> (normalize_sql s = [] \<or> \<not> is_space (last (normalize_sql s)))"
proof -
  let ?n = "normalize_sql s"
  have low: "lower ?n = ?n" by (rule normalize_sql_lower)
  have lst: "lstrip ?n = ?n" by (rule lstrip_fix) (rule normalize_sql_no_leading_space)
  have unf: "normalize_sql ?n = map unify_quote (rstrip_chars '';'' (re_sub_ws (rstrip ?n)))"
    by (simp add: normalize_sql_unfold [of ?n] low strip_def lst)
  show ?thesis
  proof
    assume ok: "?n = [] \<or> \<not> is_space (last ?n)"
    then have "rstrip ?n = ?n" by (rule rstrip_fix)
    moreover have "re_sub_ws ?n = ?n"
      by (rule re_sub_ws_collapsed) (rule normalize_sql_collapsed)
    moreover have "rstrip_chars '';'' ?n = ?n"
      by (rule rstrip_chars_fix) (use normalize_sql_no_trailing_semicolon [of s] in auto)
    moreover have "map unify_quote ?n = ?n"
      by (rule unify_quote_fix) (rule normalize_sql_no_double_quote)
    ultimately show "normalize_sql ?n = ?n" using unf by simp
  next
    assume fixed: "normalize_sql ?n = ?n"
    show "?n = [] \<or> \<not> is_space (last ?n)"
    proof (rule ccontr)
      assume "\<not> (?n = [] \<or> \<not> is_space (last ?n))"
      then have "length (rstrip ?n) < length ?n" by (simp add: length_rstrip_less)
      moreover obtain r where "?n = rstrip ?n @ r" using rstrip_prefix by blast
      then have "collapsed (rstrip ?n)"
        using normalize_sql_collapsed [of s] collapsed_append by metis
      then have "re_sub_ws (rstrip ?n) = rstrip ?n" by (rule re_sub_ws_collapsed)
      ultimately have "length (normalize_sql ?n) < length ?n"
        using unf length_rstrip_chars_le [of "'';''" "rstrip ?n"] by simp
      with fixed show False by simp
    qed
  qed
qed

text \<open>
  Claim C3 as stated fails: \<^verbatim>\<open>select 1 ;\<close> normalises to \<^verbatim>\<open>select 1\<close> followed by a
  space, which normalises to \<^verbatim>\<open>select 1\<close>. The semicolon is removed after the trim, so
  the space in front of it survives the first pass and is trimmed by the second.
\<close>

theorem normalize_sql_not_idempotent:
  "normalize_sql ''select 1 ;'' = ''select 1 ''
     \<and> normalize_sql (normalize_sql ''select 1 ;'') = ''select 1''
     \<and> normalize_sql (normalize_sql ''select 1 ;'') \<noteq> normalize_sql ''select 1 ;''"
  by code_simp

theorem normalize_sql_idempotent_witness:
  "normalize_sql (normalize_sql ''SELECT  1;'') = normalize_sql ''SELECT  1;''"
proof -
  have "normalize_sql ''SELECT  1;'' = []
          \<or> \<not> is_space (last (normalize_sql ''SELECT  1;''))"
    by code_simp
  then show ?thesis by (rule iffD2 [OF normalize_sql_idempotent_iff])
qed

subsection \<open>The transform sequence\<close>

text \<open>
  Claim C4 (as amended). \<^const>\<open>normalize_sql\<close> is the sequence: lowercase, collapse
  every whitespace run to one space, trim, strip the whole trailing run of semicolons,
  replace every double quote by a single quote (trimming and collapsing commute, so the
  order of the code and the order of the specification agree); its result never ends in
  a semicolon.
\<close>

theorem normalize_sql_transforms:
  "normalize_sql s = normalize_spec_all_semicolons s
     \<and> \<not> (\<exists>t. normalize_sql s = t @ '';'')"
proof
  show "normalize_sql s = normalize_spec_all_semicolons s"
    by (simp add: normalize_sql_def normalize_spec_all_semicolons_def strip_re_sub_ws)
  show "\<not> (\<exists>t. normalize_sql s = t @ '';'')"
    using normalize_sql_no_trailing_semicolon [of s] by auto
qed


theorem normalize_sql_transforms_witness:
  "normalize_sql ''SELECT  1 ;; '' = ''select 1 ''
     \<and> normalize_spec_all_semicolons ''SELECT  1 ;; '' = ''select 1 ''"
proof -
  have "normalize_spec_all_semicolons ''SELECT  1 ;; '' = ''select 1 ''"
    by code_simp
  then show ?thesis using normalize_sql_transforms [of "''SELECT  1 ;; ''"] by simp
qed

text \<open>
  Claim C4 as stated fails: of two trailing semicolons none is kept, where stripping a
  single one would keep one.
\<close>

theorem normalize_sql_strips_all_semicolons:
  "normalize_sql ''select 1;;'' = ''select 1''
     \<and> normalize_spec ''select 1;;'' = ''select 1;''
     \<and> normalize_sql ''select 1;;'' \<noteq> normalize_spec ''select 1;;''"
  by code_simp

section \<open>Properties of the corpus sampler\<close>

lemma queries_starting_bucket:
  "well_formed corpus \<Longrightarrow> queries_starting kw corpus = Inr (bucket kw corpus)"
  by (induction corpus) (auto simp: well_formed_def bucket_def leading_keyword_def getitem_def)

lemma slice_to_nat: "slice_to xs (int k) = take k xs"
  by (simp add: slice_to_def)

lemma slice_nat: "slice xs (int a) (int b) = drop a (take b xs)"
proof -
  have "drop (min a (length xs)) (take (min b (length xs)) xs) = drop a (take b xs)"
    by (cases "a \<le> length xs"; cases "b \<le> length xs") (simp_all add: min_def)
  then show ?thesis by (simp add: slice_def slice_index_def)
qed

lemma backfill_eq: "drop a (take (a + r) xs) = take r (drop a xs)"
  by (simp add: drop_take)

lemma select_test_subset_policy:
  assumes wf: "well_formed corpus" and nonneg: "0 \<le> count" and lt: "count < int (length corpus)"
  shows "select_test_subset corpus count = Inr (sample_policy corpus (nat count))"
proof -
  define c where "c = nat count"
  define S where "S = bucket ''SELECT'' corpus"
  define I where "I = bucket ''INSERT'' corpus"
  define U where "U = bucket ''UPDATE'' corpus"
  define D where "D = bucket ''DELETE'' corpus"
  define sq where "sq = min (c div 2) (length S)"
  define iq where "iq = min (c div 6) (length I)"
  define uq where "uq = min (c div 6) (length U)"
  define dq where "dq = min (c - sq - iq - uq) (length D)"
  define picked where "picked = take sq S @ take iq I @ take uq U @ take dq D"
  have count: "count = int c" using nonneg by (simp add: c_def)
  have sq: "min (count div 2) (int (length S)) = int sq"
    by (simp add: count sq_def zdiv_int)
  have iq: "min (count div 6) (int (length I)) = int iq"
    by (simp add: count iq_def zdiv_int)
  have uq: "min (count div 6) (int (length U)) = int uq"
    by (simp add: count uq_def zdiv_int)
  have le: "sq + iq + uq \<le> c"
    unfolding sq_def iq_def uq_def by linarith
  then have "count - int sq - int iq - int uq = int (c - sq - iq - uq)"
    by (simp add: count)
  then have dq: "min (count - int sq - int iq - int uq) (int (length D)) = int dq"
    by (simp add: dq_def)
  have not_ge: "\<not> int (length corpus) \<le> count" using lt by simp
  have code: "select_test_subset corpus count =
      Inr (slice_to
             (if count - int (length picked) > 0
              then picked @ slice S (int sq) (int sq + (count - int (length picked)))
              else picked) count)"
    unfolding select_test_subset_def Let_def
    by (simp only: not_ge if_False queries_starting_bucket [OF wf] sum.case
          S_def [symmetric] I_def [symmetric] U_def [symmetric] D_def [symmetric]
          sq iq uq dq slice_to_nat picked_def [symmetric])
  have code': "select_test_subset corpus count =
      Inr (take c (if c > length picked
                   then picked @ take (c - length picked) (drop sq S) else picked))"
  proof (cases "c > length picked")
    case True
    then have r: "count - int (length picked) = int (c - length picked)"
      and pos: "0 < int (c - length picked)"
      by (simp_all add: count)
    have "select_test_subset corpus count =
        Inr (slice_to (picked @ slice S (int sq) (int (sq + (c - length picked)))) (int c))"
      unfolding code r by (simp only: pos if_True of_nat_add count)
    with True show ?thesis
      by (simp only: slice_nat backfill_eq slice_to_nat if_True)
  next
    case False
    then have "\<not> 0 < count - int (length picked)" by (simp add: count)
    then have "select_test_subset corpus count = Inr (slice_to picked (int c))"
      unfolding code by (simp only: if_False count)
    with False show ?thesis by (simp only: slice_to_nat if_False)
  qed
  have policy: "sample_policy corpus c = take c (picked @ take (c - length picked) (drop sq S))"
    unfolding sample_policy_def Let_def
    by (simp only: S_def [symmetric] I_def [symmetric] U_def [symmetric] D_def [symmetric]
          sq_def [symmetric] iq_def [symmetric] uq_def [symmetric] dq_def [symmetric]
          picked_def [symmetric])
  show ?thesis
    unfolding code' policy c_def [symmetric] by (cases "c > length picked") simp_all
qed


lemma select_test_subset_example:
  assumes wf: "well_formed corpus"
    and sizes: "length (bucket ''SELECT'' corpus) = 10" "length (bucket ''INSERT'' corpus) = 3"
      "length (bucket ''UPDATE'' corpus) = 3" "length (bucket ''DELETE'' corpus) = 2"
  shows "select_test_subset corpus 6 =
           Inr (take 3 (bucket ''SELECT'' corpus) @ take 1 (bucket ''INSERT'' corpus)
                  @ take 1 (bucket ''UPDATE'' corpus) @ take 1 (bucket ''DELETE'' corpus))"
proof -
  have "length (bucket ''SELECT'' corpus) \<le> length corpus"
    by (simp add: bucket_def)
  with sizes have "(6::int) < int (length corpus)" by simp
  with wf have "select_test_subset corpus 6 = Inr (sample_policy corpus (nat 6))"
    by (intro select_test_subset_policy) simp_all
  moreover have "sample_policy corpus 6 =
      take 3 (bucket ''SELECT'' corpus) @ take 1 (bucket ''INSERT'' corpus)
        @ take 1 (bucket ''UPDATE'' corpus) @ take 1 (bucket ''DELETE'' corpus)"
    by (simp add: sample_policy_def Let_def sizes)
  ultimately show ?thesis by simp
qed

lemma queries_starting_KeyError:
  "\<not> well_formed corpus \<Longrightarrow> queries_starting kw corpus = Inl (KeyError ''sql'')"
proof (induction corpus)
  case Nil
  then show ?case by (simp add: well_formed_def)
next
  case (Cons it rest)
  show ?case
  proof (cases "map_of it ''sql''")
    case None
    then show ?thesis by (simp add: getitem_def)
  next
    case (Some s)
    with Cons.prems have "\<not> well_formed rest" by (simp add: well_formed_def)
    with Cons.IH Some show ?thesis by (simp add: getitem_def)
  qed
qed

lemma select_test_subset_KeyError:
  assumes "\<not> well_formed corpus" and "count < int (length corpus)"
  shows "select_test_subset corpus count = Inl (KeyError ''sql'')"
  using assms by (simp add: select_test_subset_def queries_starting_KeyError)

lemma sample_policy_eq_spec:
  assumes "count div 2 \<le> length (bucket ''SELECT'' corpus)"
    and "count div 6 \<le> length (bucket ''INSERT'' corpus)"
    and "count div 6 \<le> length (bucket ''UPDATE'' corpus)"
  shows "sample_policy corpus count = sample_spec corpus count"
  using assms by (simp add: sample_policy_def sample_spec_def Let_def min_absorb1)

text \<open>
  Claim C9, amended. For every corpus and every count with \<open>0 < count < |corpus|\<close> the
  sampler returns the selection \<^const>\<open>sample_policy\<close>: the first
  \<open>min (count div 2) |SELECT|\<close> SELECT cases, the first \<open>min (count div 6) |INSERT|\<close>
  INSERT cases, the first \<open>min (count div 6) |UPDATE|\<close> UPDATE cases, then DELETE cases up
  to \<open>count\<close> minus the number of cases just taken, capped at the DELETE bucket, backfilled
  from the unused tail of the SELECT bucket and truncated to \<open>count\<close>. A case without its
  \<^verbatim>\<open>sql\<close> field makes the call raise \<^verbatim>\<open>KeyError\<close>. When the SELECT, INSERT and UPDATE
  buckets each hold their quota, this is the selection the specification words
  (\<^const>\<open>sample_spec\<close>). A corpus of 10 SELECTs, 3 INSERTs, 3 UPDATEs and 2 DELETEs
  sampled with count 6 gives the first 3 SELECTs, the first INSERT, the first UPDATE and
  the first DELETE, in that order.
\<close>

theorem select_test_subset_stratified:
  assumes "0 < count" and "count < int (length corpus)"
  shows "(well_formed corpus \<longrightarrow>
            select_test_subset corpus count = Inr (sample_policy corpus (nat count)))
       \<and> (\<not> well_formed corpus \<longrightarrow> select_test_subset corpus count = Inl (KeyError ''sql''))
       \<and> (nat count div 2 \<le> length (bucket ''SELECT'' corpus)
            \<and> nat count div 6 \<le> length (bucket ''INSERT'' corpus)
            \<and> nat count div 6 \<le> length (bucket ''UPDATE'' corpus) \<longrightarrow>
            sample_policy corpus (nat count) = sample_spec corpus (nat count))
       \<and> (well_formed corpus \<and> count = 6
            \<and> length (bucket ''SELECT'' corpus) = 10 \<and> length (bucket ''INSERT'' corpus) = 3
            \<and> length (bucket ''UPDATE'' corpus) = 3 \<and> length (bucket ''DELETE'' corpus) = 2 \<longrightarrow>
            select_test_subset corpus count =
              Inr (take 3 (bucket ''SELECT'' corpus) @ take 1 (bucket ''INSERT'' corpus)
                     @ take 1 (bucket ''UPDATE'' corpus) @ take 1 (bucket ''DELETE'' corpus)))"
proof (intro conjI impI)
  assume "well_formed corpus"
  with assms show "select_test_subset corpus count = Inr (sample_policy corpus (nat count))"
    by (intro select_test_subset_policy) simp_all
next
  assume "\<not> well_formed corpus"
  then show "select_test_subset corpus count = Inl (KeyError ''sql'')"
    using assms(2) by (rule select_test_subset_KeyError)
next
  assume "nat count div 2 \<le> length (bucket ''SELECT'' corpus)
            \<and> nat count div 6 \<le> length (bucket ''INSERT'' corpus)
            \<and> nat count div 6 \<le> length (bucket ''UPDATE'' corpus)"
  then show "sample_policy corpus (nat count) = sample_spec corpus (nat count)"
    by (intro sample_policy_eq_spec) simp_all
next
  assume "well_formed corpus \<and> count = 6
            \<and> length (bucket ''SELECT'' corpus) = 10 \<and> length (bucket ''INSERT'' corpus) = 3
            \<and> length (bucket ''UPDATE'' corpus) = 3 \<and> length (bucket ''DELETE'' corpus) = 2"
  then show "select_test_subset corpus count =
              Inr (take 3 (bucket ''SELECT'' corpus) @ take 1 (bucket ''INSERT'' corpus)
                     @ take 1 (bucket ''UPDATE'' corpus) @ take 1 (bucket ''DELETE'' corpus))"
    using select_test_subset_example [of corpus] by simp
qed

theorem select_test_subset_stratified_witness:
  "(0::int) < 6 \<and> 6 < int (length mixed_corpus) \<and> well_formed mixed_corpus
     \<and> select_test_subset mixed_corpus 6 =
         Inr [test_case ''s0'' ''SELECT 0'', test_case ''s1'' ''select 1'',
              test_case ''s2'' '' Select 2'', test_case ''i0'' ''INSERT 0'',
              test_case ''u0'' ''UPDATE 0'', test_case ''d0'' ''DELETE 0'']
     \<and> select_test_subset mixed_corpus 6 = Inr (sample_policy mixed_corpus (nat 6))
     \<and> sample_policy mixed_corpus (nat 6) = sample_spec mixed_corpus (nat 6)
     \<and> \<not> well_formed no_sql_corpus
     \<and> select_test_subset no_sql_corpus 1 = Inl (KeyError ''sql'')"
proof -
  have wf: "well_formed mixed_corpus" by code_simp
  have S: "bucket ''SELECT'' mixed_corpus =
      [test_case ''s0'' ''SELECT 0'', test_case ''s1'' ''select 1'', test_case ''s2'' '' Select 2'',
       test_case ''s3'' ''SELECT 3'', test_case ''s4'' ''SELECT 4'', test_case ''s5'' ''SELECT 5'',
       test_case ''s6'' ''SELECT 6'', test_case ''s7'' ''SELECT 7'', test_case ''s8'' ''SELECT 8'',
       test_case ''s9'' ''SELECT 9'']"
    by code_simp
  have I: "bucket ''INSERT'' mixed_corpus =
      [test_case ''i0'' ''INSERT 0'', test_case ''i1'' ''insert 1'', test_case ''i2'' ''INSERT 2'']"
    by code_simp
  have U: "bucket ''UPDATE'' mixed_corpus =
      [test_case ''u0'' ''UPDATE 0'', test_case ''u1'' ''update 1'', test_case ''u2'' ''UPDATE 2'']"
    by code_simp
  have D: "bucket ''DELETE'' mixed_corpus =
      [test_case ''d0'' ''DELETE 0'', test_case ''d1'' ''delete 1'']"
    by code_simp
  have sizes: "length (bucket ''SELECT'' mixed_corpus) = 10 \<and> length (bucket ''INSERT'' mixed_corpus) = 3
      \<and> length (bucket ''UPDATE'' mixed_corpus) = 3 \<and> length (bucket ''DELETE'' mixed_corpus) = 2"
    by (simp add: S I U D)
  have range: "(0::int) < 6" "(6::int) < int (length mixed_corpus)"
    by (simp_all add: mixed_corpus_def)
  have quotas: "nat 6 div 2 \<le> length (bucket ''SELECT'' mixed_corpus)
      \<and> nat 6 div 6 \<le> length (bucket ''INSERT'' mixed_corpus)
      \<and> nat 6 div 6 \<le> length (bucket ''UPDATE'' mixed_corpus)"
    by (simp add: S I U)
  have picked: "take 3 (bucket ''SELECT'' mixed_corpus) @ take 1 (bucket ''INSERT'' mixed_corpus)
      @ take 1 (bucket ''UPDATE'' mixed_corpus) @ take 1 (bucket ''DELETE'' mixed_corpus) =
      [test_case ''s0'' ''SELECT 0'', test_case ''s1'' ''select 1'',
       test_case ''s2'' '' Select 2'', test_case ''i0'' ''INSERT 0'',
       test_case ''u0'' ''UPDATE 0'', test_case ''d0'' ''DELETE 0'']"
    by (simp add: S I U D)
  have bad: "\<not> well_formed no_sql_corpus" by code_simp
  have bad_range: "(0::int) < 1" "(1::int) < int (length no_sql_corpus)"
    by (simp_all add: no_sql_corpus_def)
  note good = select_test_subset_stratified [OF range]
  from good wf
  have general: "select_test_subset mixed_corpus 6 = Inr (sample_policy mixed_corpus (nat 6))"
    by blast
  from good quotas
  have agree: "sample_policy mixed_corpus (nat 6) = sample_spec mixed_corpus (nat 6)"
    by blast
  from good wf sizes
  have "select_test_subset mixed_corpus 6 =
      Inr (take 3 (bucket ''SELECT'' mixed_corpus) @ take 1 (bucket ''INSERT'' mixed_corpus)
        @ take 1 (bucket ''UPDATE'' mixed_corpus) @ take 1 (bucket ''DELETE'' mixed_corpus))"
    by blast
  then have particular: "select_test_subset mixed_corpus 6 =
      Inr [test_case ''s0'' ''SELECT 0'', test_case ''s1'' ''select 1'',
           test_case ''s2'' '' Select 2'', test_case ''i0'' ''INSERT 0'',
           test_case ''u0'' ''UPDATE 0'', test_case ''d0'' ''DELETE 0'']"
    by (simp only: picked)
  from select_test_subset_stratified [OF bad_range] bad
  have raised: "select_test_subset no_sql_corpus 1 = Inl (KeyError ''sql'')"
    by blast
  from range wf particular general agree bad raised show ?thesis by (intro conjI)
qed

text \<open>
  Claim C9 as stated takes the DELETE quota from the quotas of the other three buckets,
  as the specification does. The code subtracts the numbers of cases it took. On
  10 SELECTs and 5 DELETEs with count 6 the INSERT and UPDATE buckets are empty: the code
  takes three DELETEs and needs no backfill, the specification's policy takes one DELETE
  and backfills two SELECTs.
\<close>

theorem select_test_subset_delete_quota:
  "(0::int) < 6 \<and> 6 < int (length select_delete_corpus)
     \<and> select_test_subset select_delete_corpus 6 =
         Inr [test_case ''s0'' ''SELECT 0'', test_case ''s1'' ''SELECT 1'',
              test_case ''s2'' ''SELECT 2'', test_case ''d0'' ''DELETE 0'',
              test_case ''d1'' ''DELETE 1'', test_case ''d2'' ''DELETE 2'']
     \<and> sample_spec select_delete_corpus 6 =
         [test_case ''s0'' ''SELECT 0'', test_case ''s1'' ''SELECT 1'',
          test_case ''s2'' ''SELECT 2'', test_case ''d0'' ''DELETE 0'',
          test_case ''s3'' ''SELECT 3'', test_case ''s4'' ''SELECT 4'']"
  by code_simp

section \<open>Properties of the similarity scorer\<close>

subsection \<open>The longest match lies in its window\<close>

lemma scan_row_bounds:
  assumes "\<forall>j. j2len j + alo \<le> i" and "i < ahi"
    and "\<forall>j. new j + alo \<le> i + 1" and "alo \<le> besti" and "besti + bestsize \<le> ahi"
    and "scan_row i blo bhi j2len js (new, (besti, bestj, bestsize)) = (new', (bi, bj, bs))"
  shows "(\<forall>j. new' j + alo \<le> i + 1) \<and> alo \<le> bi \<and> bi + bs \<le> ahi"
  using assms(3-)
proof (induction js arbitrary: new besti bestj bestsize)
  case Nil
  then show ?case by simp
next
  case (Cons j js)
  show ?case
  proof (cases "j < blo")
    case True
    with Cons.prems have
      "scan_row i blo bhi j2len js (new, (besti, bestj, bestsize)) = (new', (bi, bj, bs))"
      by simp
    with Cons.prems show ?thesis by (intro Cons.IH)
  next
    case False
    show ?thesis
    proof (cases "bhi \<le> j")
      case True
      with False Cons.prems show ?thesis by simp
    next
      case inside: False
      define k where "k = j2len_get j2len j + 1"
      have k: "k + alo \<le> i + 1"
        using assms(1) by (auto simp: k_def j2len_get_def)
      let ?best = "if k > bestsize then (i + 1 - k, j + 1 - k, k) else (besti, bestj, bestsize)"
      have step: "scan_row i blo bhi j2len (j # js) (new, (besti, bestj, bestsize))
          = scan_row i blo bhi j2len js (new(j := k), ?best)"
        using False inside by (simp add: k_def Let_def)
      have run: "scan_row i blo bhi j2len js (new(j := k), ?best) = (new', (bi, bj, bs))"
        using Cons.prems(4) unfolding step .
      show ?thesis
      proof (cases "k > bestsize")
        case True
        with run have "scan_row i blo bhi j2len js (new(j := k), (i + 1 - k, j + 1 - k, k))
            = (new', (bi, bj, bs))" by simp
        moreover have "\<forall>j'. (new(j := k)) j' + alo \<le> i + 1"
          using k Cons.prems(1) by simp
        moreover have "alo \<le> i + 1 - k" and "i + 1 - k + k \<le> ahi"
          using k assms(2) by simp_all
        ultimately show ?thesis by (intro Cons.IH)
      next
        case no: False
        with run have "scan_row i blo bhi j2len js (new(j := k), (besti, bestj, bestsize))
            = (new', (bi, bj, bs))" by simp
        moreover have "\<forall>j'. (new(j := k)) j' + alo \<le> i + 1"
          using k Cons.prems(1) by simp
        ultimately show ?thesis using Cons.prems(2,3) by (intro Cons.IH)
      qed
    qed
  qed
qed

lemma scan_rows_bounds:
  assumes "\<forall>j. j2len j + alo \<le> i0" and "alo \<le> besti" and "besti + bestsize \<le> ahi"
    and "scan_rows a b blo bhi [i0..<ahi] (j2len, (besti, bestj, bestsize)) = (i, j, k)"
  shows "alo \<le> i \<and> i + k \<le> ahi"
  using assms
proof (induction "ahi - i0" arbitrary: i0 j2len besti bestj bestsize)
  case 0
  then show ?case by simp
next
  case (Suc n)
  then have lt: "i0 < ahi" by simp
  obtain new' bi bj bs where row:
    "scan_row i0 blo bhi j2len (b2j b (a ! i0)) (\<lambda>_. 0, (besti, bestj, bestsize))
       = (new', (bi, bj, bs))"
    by (metis prod_cases3)
  have alo: "alo \<le> i0" using Suc.prems(1) by (metis add_leD2)
  have inv: "(\<forall>j. new' j + alo \<le> i0 + 1) \<and> alo \<le> bi \<and> bi + bs \<le> ahi"
    using Suc.prems(1) lt _ Suc.prems(2,3) row
    by (rule scan_row_bounds) (use alo in simp)
  from lt Suc.prems(4) row have
    "scan_rows a b blo bhi [Suc i0..<ahi] (new', (bi, bj, bs)) = (i, j, k)"
    by (simp add: upt_conv_Cons)
  moreover from Suc.hyps(2) have "n = ahi - Suc i0" by simp
  ultimately show ?case using inv by (intro Suc.hyps(1) [of "Suc i0" new' bi bs bj]) simp_all
qed

declare extend_back.simps [simp del] extend_forward.simps [simp del]

lemma extend_back_bounds:
  "alo \<le> besti \<Longrightarrow> extend_back a b alo blo (besti, bestj, bestsize) = (i, j, k)
     \<Longrightarrow> alo \<le> i \<and> i + k = besti + bestsize"
proof (induction a b alo blo "(besti, bestj, bestsize)" arbitrary: besti bestj bestsize
    rule: extend_back.induct)
  case (1 a b alo blo besti bestj bestsize)
  show ?case
  proof (cases "besti > alo \<and> bestj > blo \<and> a ! (besti - 1) = b ! (bestj - 1)")
    case True
    with 1(3) have "extend_back a b alo blo (besti - 1, bestj - 1, bestsize + 1) = (i, j, k)"
      by (subst (asm) extend_back.simps) simp
    moreover have "alo \<le> besti - 1" using True by linarith
    ultimately have "alo \<le> i \<and> i + k = besti - 1 + (bestsize + 1)"
      using True by (intro 1(1))
    with True show ?thesis by simp
  next
    case False
    with 1(2,3) show ?thesis by (subst (asm) extend_back.simps) auto
  qed
qed

lemma extend_forward_bounds:
  "besti + bestsize \<le> ahi \<Longrightarrow> extend_forward a b ahi bhi (besti, bestj, bestsize) = (i, j, k)
     \<Longrightarrow> i = besti \<and> i + k \<le> ahi"
proof (induction a b ahi bhi "(besti, bestj, bestsize)" arbitrary: besti bestj bestsize
    rule: extend_forward.induct)
  case (1 a b ahi bhi besti bestj bestsize)
  show ?case
  proof (cases "besti + bestsize < ahi \<and> bestj + bestsize < bhi
      \<and> a ! (besti + bestsize) = b ! (bestj + bestsize)")
    case True
    with 1(3) have "extend_forward a b ahi bhi (besti, bestj, bestsize + 1) = (i, j, k)"
      by (subst (asm) extend_forward.simps) simp
    moreover have "besti + (bestsize + 1) \<le> ahi" using True by linarith
    ultimately have "i = besti \<and> i + k \<le> ahi"
      using True by (intro 1(1))
    then show ?thesis .
  next
    case False
    with 1(2,3) show ?thesis by (subst (asm) extend_forward.simps) auto
  qed
qed

lemma find_longest_match_bounds:
  assumes "find_longest_match a b alo ahi blo bhi = (i, j, k)" and "k \<noteq> 0"
  shows "alo \<le> i \<and> i + k \<le> ahi"
proof (cases "alo \<le> ahi")
  case True
  obtain si sj sk where scan:
    "scan_rows a b blo bhi [alo..<ahi] (\<lambda>_. 0, (alo, blo, 0)) = (si, sj, sk)"
    by (metis prod_cases3)
  obtain ei ej ek where bk: "extend_back a b alo blo (si, sj, sk) = (ei, ej, ek)"
    by (metis prod_cases3)
  from scan True have s: "alo \<le> si \<and> si + sk \<le> ahi"
    by (intro scan_rows_bounds [of "\<lambda>_. 0" alo alo alo 0 ahi a b blo bhi blo]) simp_all
  with bk have e: "alo \<le> ei \<and> ei + ek = si + sk"
    by (intro extend_back_bounds) simp_all
  from assms(1) scan bk have "extend_forward a b ahi bhi (ei, ej, ek) = (i, j, k)"
    by (simp add: find_longest_match_def)
  with e s have "i = ei \<and> i + k \<le> ahi"
    by (intro extend_forward_bounds) simp_all
  with e show ?thesis by simp
next
  case False
  then have "find_longest_match a b alo ahi blo bhi = (alo, blo, 0)"
    by (simp add: find_longest_match_def extend_back.simps extend_forward.simps)
  with assms show ?thesis by simp
qed

text \<open>
  The work list of \<^verbatim>\<open>get_matching_blocks\<close> empties: a block of positive size lies inside
  its window, so the windows pushed are shorter than the window popped.
\<close>

termination matching_blocks_loop
  apply (relation "measure (\<lambda>(a, b, queue, blocks).
    sum_list (map (\<lambda>(alo, ahi, blo, bhi). 2 * (ahi - alo) + 1) queue))")
  apply simp
  apply (auto dest!: find_longest_match_bounds [OF sym])
  done

subsection \<open>A sequence against itself\<close>

lemma diag_run_eq:
  "diag_run x j = (if popular x (x ! j) then 0 else j2len_get (diag_run x) j + 1)"
  by (cases j) (simp_all add: j2len_get_def)

lemma scan_row_fold:
  "sorted js \<Longrightarrow>
   scan_row i blo bhi j2len js st
     = fold (row_step i j2len) (filter (\<lambda>j. blo \<le> j \<and> j < bhi) js) st"
proof (induction js arbitrary: st)
  case Nil
  show ?case by simp
next
  case (Cons j js)
  obtain new bi bj bs where st: "st = (new, (bi, bj, bs))" by (metis surj_pair)
  from Cons.prems have sorted: "sorted js" and ge: "\<forall>j'\<in>set js. j \<le> j'" by simp_all
  show ?case
  proof (cases "j < blo")
    case True
    with Cons.IH [OF sorted] show ?thesis by (simp add: st)
  next
    case False
    show ?thesis
    proof (cases "bhi \<le> j")
      case True
      with ge have "filter (\<lambda>j. blo \<le> j \<and> j < bhi) js = []"
        by (auto simp: filter_empty_conv)
      with True False show ?thesis by (simp add: st)
    next
      case inside: False
      with False Cons.IH [OF sorted] show ?thesis
        by (simp add: st row_step_def Let_def)
    qed
  qed
qed

lemma fold_row_step_no_update:
  assumes "\<forall>j\<in>set js. j2len_get j2len j + 1 \<le> bs"
  shows "fold (row_step i j2len) js (new, (bi, bj, bs))
           = (\<lambda>j. if j \<in> set js then j2len_get j2len j + 1 else new j, (bi, bj, bs))"
  using assms
proof (induction js arbitrary: new)
  case Nil
  show ?case by simp
next
  case (Cons j js)
  then have "fold (row_step i j2len) (j # js) (new, (bi, bj, bs))
      = fold (row_step i j2len) js (new(j := j2len_get j2len j + 1), (bi, bj, bs))"
    by (simp add: row_step_def Let_def)
  also have "\<dots> = (\<lambda>j'. if j' \<in> set js then j2len_get j2len j' + 1
                          else (new(j := j2len_get j2len j + 1)) j', (bi, bj, bs))"
    using Cons.prems by (intro Cons.IH) simp
  also have "\<dots> = (\<lambda>j'. if j' \<in> set (j # js) then j2len_get j2len j' + 1 else new j', (bi, bj, bs))"
    by (auto simp: fun_eq_iff)
  finally show ?case .
qed

lemma b2j_not_popular:
  "\<not> popular x e \<Longrightarrow> b2j x e = filter (\<lambda>j. x ! j = e) [0..<length x]"
  by (simp add: b2j_def)

lemma sorted_b2j: "sorted (b2j x e)"
  by (simp add: b2j_def sorted_wrt_filter)

lemma b2j_window:
  "filter (\<lambda>j. 0 \<le> j \<and> j < length x) (b2j x e) = b2j x e"
  by (auto simp: b2j_def intro: filter_True)

lemma b2j_split:
  assumes "\<not> popular x (x ! i)" and "i < length x"
  shows "b2j x (x ! i) = filter (\<lambda>j. x ! j = x ! i) [0..<i] @ [i]
                           @ filter (\<lambda>j. x ! j = x ! i) [Suc i..<length x]"
proof -
  have "[0..<i + (length x - i)] = [0..<i] @ [i..<i + (length x - i)]"
    by (rule upt_add_eq_append) simp
  then have "[0..<length x] = [0..<i] @ [i] @ [Suc i..<length x]"
    using assms(2) by (simp add: upt_conv_Cons)
  then show ?thesis using assms(1) by (simp add: b2j_not_popular)
qed

lemma scan_row_diag:
  assumes inv: "diag_inv x i prev (bi, bj, bs)" and i: "i < length x"
    and run: "scan_row i 0 (length x) prev (b2j x (x ! i)) (\<lambda>_. 0, (bi, bj, bs)) = (new, best')"
  shows "diag_inv x (Suc i) new best'"
proof -
  let ?D = "diag_run x"
  from inv have P1: "\<forall>j<i. prev j \<le> ?D j"
    and P2: "j2len_get prev i = j2len_get ?D i"
    and P3: "\<forall>j\<ge>i. prev j \<le> j2len_get ?D i"
    and P4: "\<forall>j<i. ?D j \<le> bs"
    and P5: "bi = bj"
    by (simp_all add: diag_inv_def)
  have fold: "fold (row_step i prev) (b2j x (x ! i)) (\<lambda>_. 0, (bi, bj, bs)) = (new, best')"
    using run scan_row_fold [OF sorted_b2j, of i 0 "length x" prev x "x ! i"]
    by (simp only: b2j_window)
  show ?thesis
  proof (cases "popular x (x ! i)")
    case True
    then have "b2j x (x ! i) = []" by (simp add: b2j_def)
    with fold have new: "new = (\<lambda>_. 0)" and best: "best' = (bi, bj, bs)" by simp_all
    from True have Di: "?D i = 0" by (subst diag_run_eq) simp
    have "\<forall>j<Suc i. ?D j \<le> bs" using P4 Di by (auto simp: less_Suc_eq)
    then show ?thesis
      using P5 Di by (simp add: diag_inv_def new best j2len_get_def)
  next
    case False
    let ?L = "filter (\<lambda>j. x ! j = x ! i) [0..<i]"
    let ?R = "filter (\<lambda>j. x ! j = x ! i) [Suc i..<length x]"
    let ?k = "\<lambda>j. j2len_get prev j + 1"
    define Di where "Di = ?D i"
    have Di: "Di = j2len_get prev i + 1"
      unfolding Di_def using False P2 by (subst diag_run_eq) simp
    have split: "b2j x (x ! i) = ?L @ [i] @ ?R" using False i by (rule b2j_split)
    have kL: "?k j \<le> ?D j" if "j \<in> set ?L" for j
    proof -
      from that have j: "j < i" and eq: "x ! j = x ! i" by simp_all
      have "j2len_get prev j \<le> j2len_get ?D j"
        using P1 j by (cases j) (simp_all add: j2len_get_def)
      moreover have "?D j = j2len_get ?D j + 1"
        using False eq by (subst diag_run_eq) simp
      ultimately show ?thesis by simp
    qed
    have kR: "?k j \<le> Di" if "j \<in> set ?R" for j
    proof -
      from that have j: "i < j" by simp
      then have "j2len_get prev j = prev (j - 1)" and "i \<le> j - 1"
        by (simp_all add: j2len_get_def)
      with P3 have "j2len_get prev j \<le> j2len_get ?D i" by simp
      then show ?thesis using P2 Di by simp
    qed
    define new1 where "new1 = (\<lambda>j. if j \<in> set ?L then ?k j else (0::nat))"
    have f1: "fold (row_step i prev) ?L (\<lambda>_. 0, (bi, bj, bs)) = (new1, (bi, bj, bs))"
      unfolding new1_def
    proof (rule fold_row_step_no_update, rule ballI)
      fix j assume j: "j \<in> set ?L"
      then have "j < i" by simp
      with P4 kL [OF j] show "?k j \<le> bs" by (meson le_trans)
    qed
    define best2 where
      "best2 = (if Di > bs then (i + 1 - Di, i + 1 - Di, Di) else (bi, bj, bs))"
    define bs2 where "bs2 = (if Di > bs then Di else bs)"
    have "\<exists>b2. best2 = (b2, b2, bs2)"
      using P5 by (simp add: best2_def bs2_def)
    then obtain b2 where best2: "best2 = (b2, b2, bs2)" ..
    have f2: "row_step i prev i (new1, (bi, bj, bs)) = (new1(i := Di), best2)"
      by (simp add: row_step_def Let_def Di best2_def)
    define new3 where "new3 = (\<lambda>j. if j \<in> set ?R then ?k j else (new1(i := Di)) j)"
    have f3: "fold (row_step i prev) ?R (new1(i := Di), (b2, b2, bs2)) = (new3, (b2, b2, bs2))"
      unfolding new3_def
    proof (rule fold_row_step_no_update, rule ballI)
      fix j assume "j \<in> set ?R"
      then have "?k j \<le> Di" by (rule kR)
      then show "?k j \<le> bs2" by (simp add: bs2_def)
    qed
    have "fold (row_step i prev) (b2j x (x ! i)) (\<lambda>_. 0, (bi, bj, bs)) = (new3, (b2, b2, bs2))"
      by (simp only: split fold_append o_apply f1 fold_simps f2 best2 f3)
    with fold have new: "new = new3" and best: "best' = (b2, b2, bs2)" by simp_all
    have c1: "\<forall>j<Suc i. new3 j \<le> ?D j"
    proof (intro allI impI)
      fix j assume "j < Suc i"
      then consider "j < i" | "j = i" by linarith
      then show "new3 j \<le> ?D j"
      proof cases
        case 1
        then have "new3 j = new1 j" by (simp add: new3_def)
        with kL [of j] show ?thesis by (simp add: new1_def)
      next
        case 2
        then show ?thesis by (simp add: new3_def Di_def)
      qed
    qed
    have c2: "j2len_get new3 (Suc i) = j2len_get ?D (Suc i)"
      by (simp add: j2len_get_def new3_def Di_def)
    have c3: "\<forall>j\<ge>Suc i. new3 j \<le> j2len_get ?D (Suc i)"
    proof (intro allI impI)
      fix j assume j: "Suc i \<le> j"
      show "new3 j \<le> j2len_get ?D (Suc i)"
      proof (cases "j \<in> set ?R")
        case True
        then show ?thesis using kR [OF True] by (simp add: new3_def j2len_get_def Di_def)
      next
        case False
        with j have "new3 j = 0" by (simp add: new3_def new1_def)
        then show ?thesis by simp
      qed
    qed
    have c4: "\<forall>j<Suc i. ?D j \<le> bs2"
    proof (intro allI impI)
      fix j assume "j < Suc i"
      then consider "j < i" | "j = i" by linarith
      then show "?D j \<le> bs2"
      proof cases
        case 1
        with P4 have "?D j \<le> bs" by simp
        then show ?thesis by (simp add: bs2_def)
      next
        case 2
        then show ?thesis by (simp add: bs2_def Di_def)
      qed
    qed
    from c1 c2 c3 c4 show ?thesis by (simp add: diag_inv_def new best)
  qed
qed

lemma scan_rows_diag:
  assumes "diag_inv x i0 j2len (besti, bestj, bestsize)"
    and "scan_rows x x 0 (length x) [i0..<length x] (j2len, (besti, bestj, bestsize)) = (i, j, k)"
  shows "i = j"
  using assms
proof (induction "length x - i0" arbitrary: i0 j2len besti bestj bestsize)
  case 0
  then show ?case by (simp add: diag_inv_def)
next
  case (Suc n)
  then have lt: "i0 < length x" by simp
  obtain new bi bj bs where row:
    "scan_row i0 0 (length x) j2len (b2j x (x ! i0)) (\<lambda>_. 0, (besti, bestj, bestsize))
       = (new, (bi, bj, bs))"
    by (metis prod_cases3)
  from Suc.prems(1) lt row have inv: "diag_inv x (Suc i0) new (bi, bj, bs)"
    by (rule scan_row_diag)
  from lt Suc.prems(2) row have
    "scan_rows x x 0 (length x) [Suc i0..<length x] (new, (bi, bj, bs)) = (i, j, k)"
    by (simp add: upt_conv_Cons)
  moreover from Suc.hyps(2) have "n = length x - Suc i0" by simp
  ultimately show ?case using inv by (intro Suc.hyps(1) [of "Suc i0" new bi bj bs])
qed

lemma diag_inv_init: "diag_inv x 0 (\<lambda>_. 0) (0, 0, 0)"
  by (simp add: diag_inv_def j2len_get_def)

lemma extend_back_diag:
  "extend_back x x 0 0 (i, i, k) = (0, 0, k + i)"
proof (induction i arbitrary: k)
  case 0
  show ?case by (subst extend_back.simps) simp
next
  case (Suc i)
  show ?case by (subst extend_back.simps) (simp add: Suc)
qed

lemma extend_forward_diag:
  "k \<le> n \<Longrightarrow> extend_forward x x n n (0, 0, k) = (0, 0, n)"
proof (induction "n - k" arbitrary: k)
  case 0
  then show ?case by (subst extend_forward.simps) simp
next
  case (Suc m)
  then have "extend_forward x x n n (0, 0, k + 1) = (0, 0, n)"
    by (intro Suc.hyps(1)) simp_all
  with Suc show ?case by (subst extend_forward.simps) simp
qed

lemma find_longest_match_same:
  "find_longest_match x x 0 (length x) 0 (length x) = (0, 0, length x)"
proof -
  obtain i j k where scan:
    "scan_rows x x 0 (length x) [0..<length x] (\<lambda>_. 0, (0, 0, 0)) = (i, j, k)"
    by (metis prod_cases3)
  from diag_inv_init scan have "i = j" by (rule scan_rows_diag)
  moreover from scan have "0 \<le> i \<and> i + k \<le> length x"
    by (rule scan_rows_bounds [rotated 3]) simp_all
  ultimately show ?thesis
    by (simp add: find_longest_match_def scan extend_back_diag extend_forward_diag)
qed

lemma matching_blocks_loop_same:
  "matching_blocks_loop x x [(0, length x, 0, length x)] []
     = (if x = [] then [] else [(0, 0, length x)])"
  by (simp add: find_longest_match_same)

lemma get_matching_blocks_same:
  "get_matching_blocks x x
     = (if x = [] then [] else [(0, 0, length x)]) @ [(length x, length x, 0)]"
  by (simp add: get_matching_blocks_def Let_def matching_blocks_loop_same
      del: matching_blocks_loop.simps)

lemma calculate_ratio_all: "calculate_ratio n (n + n) = 1"
  by (simp add: calculate_ratio_def)

lemma ratio_same: "ratio x x = 1"
proof -
  have "sum_list (map (\<lambda>(i, j, k). k) (get_matching_blocks x x)) = length x"
    by (simp add: get_matching_blocks_same)
  then show ?thesis by (simp add: ratio_def calculate_ratio_all)
qed

lemma ratio_Nil_left: "ratio [] b = (if b = [] then 1 else 0)"
  by (simp add: ratio_def get_matching_blocks_def find_longest_match_def calculate_ratio_def
      extend_back.simps extend_forward.simps)

lemma scan_row_Nil: "scan_row i blo bhi j2len [] st = st"
  by simp

lemma scan_rows_no_index:
  "scan_rows a [] blo bhi rows (j2len, best) = best"
  by (induction rows arbitrary: j2len) (simp_all add: b2j_def)

lemma ratio_Nil_right: "ratio a [] = (if a = [] then 1 else 0)"
  by (simp add: ratio_def get_matching_blocks_def find_longest_match_def calculate_ratio_def
      scan_rows_no_index extend_back.simps extend_forward.simps)

subsection \<open>Equal normal forms score one\<close>

text \<open>
  Claim C5. For every string \<open>s\<close> the similarity of \<open>s\<close> with itself is \<open>1.0\<close>, and any
  two statements with the same normal form score exactly \<open>1.0\<close>. This covers the empty
  normal form (the library returns \<open>1.0\<close> for two empty sequences) and normal forms of
  200 characters or more, where the index of the second sequence drops popular characters.
\<close>

theorem sql_similarity_same:
  "sql_similarity s s = 1
     \<and> (normalize_sql a = normalize_sql b \<longrightarrow> sql_similarity a b = 1)"
  by (simp add: sql_similarity_def ratio_same)

theorem sql_similarity_same_witness:
  "normalize_sql ''SELECT  title FROM film;'' = normalize_sql ''select title\<newline>from film''
     \<and> sql_similarity ''SELECT  title FROM film;'' ''select title\<newline>from film'' = 1"
proof -
  have same: "normalize_sql ''SELECT  title FROM film;'' = normalize_sql ''select title\<newline>from film''"
    by code_simp
  with sql_similarity_same [of "[]" "''SELECT  title FROM film;''" "''select title\<newline>from film''"]
  show ?thesis by blast
qed

subsection \<open>Symmetry\<close>

lemma ratio_matches: "ratio a b = calculate_ratio (matches a b) (length a + length b)"
  by (simp add: ratio_def matches_def)

lemma calculate_ratio_eq_iff:
  "calculate_ratio m (la + lb) = calculate_ratio m' (lb + la) \<longleftrightarrow> (la + lb = 0 \<or> m = m')"
  by (auto simp: calculate_ratio_def add.commute)

lemma matches_Nil: "matches [] [] = 0"
  by (simp add: matches_def get_matching_blocks_def find_longest_match_def
      extend_back.simps extend_forward.simps)

lemma ratio_symmetric_iff: "ratio x y = ratio y x \<longleftrightarrow> matches x y = matches y x"
proof (cases "x = [] \<and> y = []")
  case True
  then show ?thesis by simp
next
  case False
  then have "length x + length y \<noteq> 0" by simp
  then show ?thesis
    by (simp only: ratio_matches calculate_ratio_eq_iff) simp
qed

text \<open>
  Two sequences shorter than 200 elements that share a prefix and, after it, have no
  element in common with each other: the only matching block is the prefix.
\<close>

lemma not_popular_short: "length b < 200 \<Longrightarrow> \<not> popular b e"
  by (simp add: popular_def)

lemma b2j_absent: "e \<notin> set b \<Longrightarrow> b2j b e = []"
  by (auto simp: b2j_def filter_empty_conv)

lemma b2j_prefix:
  assumes "e \<notin> set v" and "length (p @ v) < 200"
  shows "b2j (p @ v) e = b2j p e"
proof -
  have "[0..<length p + length v] = [0..<length p] @ [length p..<length p + length v]"
    by (rule upt_add_eq_append) simp
  moreover have "filter (\<lambda>j. (p @ v) ! j = e) [length p..<length p + length v] = []"
    using assms(1) by (auto simp: filter_empty_conv nth_append)
  moreover have "filter (\<lambda>j. (p @ v) ! j = e) [0..<length p] = filter (\<lambda>j. p ! j = e) [0..<length p]"
    by (rule filter_cong) (simp_all add: nth_append)
  ultimately show ?thesis
    using assms(2) by (simp add: b2j_def not_popular_short)
qed

lemma b2j_less: "j \<in> set (b2j b e) \<Longrightarrow> j < length b"
  by (auto simp: b2j_def split: if_splits)

lemma scan_row_window:
  assumes "length p \<le> bhi"
  shows "scan_row i 0 bhi j2len (b2j p e) st = scan_row i 0 (length p) j2len (b2j p e) st"
proof -
  have "filter (\<lambda>j. 0 \<le> j \<and> j < bhi) (b2j p e) = b2j p e"
    using assms by (intro filter_True) (auto dest: b2j_less)
  then show ?thesis
    by (simp only: scan_row_fold [OF sorted_b2j] b2j_window)
qed

lemma scan_rows_prefix:
  assumes "set v \<inter> set (p @ u) = {}" and "length (p @ v) < 200"
    and "\<forall>i\<in>set rows. i < length p"
  shows "scan_rows (p @ u) (p @ v) 0 (length (p @ v)) rows st
           = scan_rows p p 0 (length p) rows st"
  using assms(3)
proof (induction rows arbitrary: st)
  case Nil
  show ?case by (cases st) simp
next
  case (Cons i rows)
  obtain j2len best where st: "st = (j2len, best)" by (cases st)
  from Cons.prems have i: "i < length p" and rows: "\<forall>i\<in>set rows. i < length p" by simp_all
  then have "p ! i \<in> set (p @ u)" by simp
  with assms(1) have "p ! i \<notin> set v" by blast
  then have b2j: "b2j (p @ v) (p ! i) = b2j p (p ! i)"
    using assms(2) by (rule b2j_prefix)
  have nth: "(p @ u) ! i = p ! i" using i by (simp add: nth_append)
  have row: "scan_row i 0 (length (p @ v)) j2len (b2j (p @ v) ((p @ u) ! i)) (\<lambda>_. 0, best)
      = scan_row i 0 (length p) j2len (b2j p (p ! i)) (\<lambda>_. 0, best)"
    unfolding nth b2j by (rule scan_row_window) simp
  show ?case
    unfolding st scan_rows.simps row by (rule Cons.IH [OF rows])
qed

lemma scan_rows_no_hits:
  assumes "\<forall>i\<in>set rows. b2j b (a ! i) = []"
  shows "scan_rows a b blo bhi rows (j2len, best) = best"
  using assms
proof (induction rows arbitrary: j2len)
  case Nil
  show ?case by simp
next
  case (Cons i rows)
  then have "b2j b (a ! i) = []" and rest: "\<forall>i\<in>set rows. b2j b (a ! i) = []" by simp_all
  then have "scan_rows a b blo bhi (i # rows) (j2len, best)
      = scan_rows a b blo bhi rows (\<lambda>_. 0, best)"
    by (simp only: scan_rows.simps scan_row.simps)
  with Cons.IH [OF rest] show ?case by simp
qed

lemma scan_rows_append_no_hits:
  assumes "\<forall>i\<in>set rows'. b2j b (a ! i) = []"
  shows "scan_rows a b blo bhi (rows @ rows') st = scan_rows a b blo bhi rows st"
proof (induction rows arbitrary: st)
  case Nil
  show ?case using assms by (cases st) (simp only: append_Nil scan_rows_no_hits scan_rows.simps)
next
  case (Cons i rows)
  obtain j2len best where st: "st = (j2len, best)" by (cases st)
  show ?case unfolding st append_Cons scan_rows.simps by (rule Cons.IH)
qed

lemma nth_tail_mem:
  assumes "length p \<le> i" and "i < length p + length u"
  shows "(p @ u) ! i \<in> set u"
proof -
  from assms have "i - length p < length u" by simp
  then have "u ! (i - length p) \<in> set u" by (rule nth_mem)
  with assms(1) show ?thesis by (simp add: nth_append)
qed

lemma scan_rows_common_prefix:
  assumes u: "set u \<inter> set (p @ v) = {}" and v: "set v \<inter> set (p @ u) = {}"
    and short: "length (p @ v) < 200"
  shows "scan_rows (p @ u) (p @ v) 0 (length (p @ v)) [0..<length (p @ u)] st
           = scan_rows p p 0 (length p) [0..<length p] st"
proof -
  have rows: "[0..<length (p @ u)] = [0..<length p] @ [length p..<length p + length u]"
    by (simp only: length_append) (rule upt_add_eq_append, simp)
  have "\<forall>i\<in>set [length p..<length p + length u]. b2j (p @ v) ((p @ u) ! i) = []"
  proof
    fix i assume "i \<in> set [length p..<length p + length u]"
    then have "(p @ u) ! i \<in> set u" by (intro nth_tail_mem) simp_all
    with u have "(p @ u) ! i \<notin> set (p @ v)" by blast
    then show "b2j (p @ v) ((p @ u) ! i) = []" by (rule b2j_absent)
  qed
  then have "scan_rows (p @ u) (p @ v) 0 (length (p @ v)) [0..<length (p @ u)] st
      = scan_rows (p @ u) (p @ v) 0 (length (p @ v)) [0..<length p] st"
    unfolding rows by (rule scan_rows_append_no_hits)
  also have "\<dots> = scan_rows p p 0 (length p) [0..<length p] st"
    using v short by (rule scan_rows_prefix) simp
  finally show ?thesis .
qed

lemma extend_back_common_prefix:
  "i \<le> length p \<Longrightarrow> extend_back (p @ u) (p @ v) 0 0 (i, i, k) = (0, 0, k + i)"
proof (induction i arbitrary: k)
  case 0
  show ?case by (subst extend_back.simps) simp
next
  case (Suc i)
  then have "(p @ u) ! i = (p @ v) ! i" by (simp add: nth_append)
  with Suc show ?case by (subst extend_back.simps) simp
qed

lemma first_differs:
  assumes "set u \<inter> set (p @ v) = {}"
    and "length p < length (p @ u)" and "length p < length (p @ v)"
  shows "(p @ u) ! length p \<noteq> (p @ v) ! length p"
proof -
  from assms(2) have "(p @ u) ! length p \<in> set u" by (intro nth_tail_mem) simp_all
  moreover from assms(3) have "(p @ v) ! length p \<in> set (p @ v)" by (intro nth_mem)
  ultimately show ?thesis using assms(1) by fastforce
qed

lemma extend_forward_common_prefix:
  assumes "set u \<inter> set (p @ v) = {}"
  shows "k \<le> length p \<Longrightarrow>
    extend_forward (p @ u) (p @ v) (length (p @ u)) (length (p @ v)) (0, 0, k) = (0, 0, length p)"
proof (induction "length p - k" arbitrary: k)
  case 0
  then have k: "k = length p" by simp
  show ?case
    unfolding k using first_differs [OF assms]
    by (subst extend_forward.simps) auto
next
  case (Suc m)
  then have lt: "k < length p" by simp
  then have "extend_forward (p @ u) (p @ v) (length (p @ u)) (length (p @ v)) (0, 0, k + 1)
      = (0, 0, length p)"
    using Suc.hyps(2) by (intro Suc.hyps(1)) simp_all
  with lt show ?case by (subst extend_forward.simps) (simp add: nth_append)
qed

lemma find_longest_match_common_prefix:
  assumes u: "set u \<inter> set (p @ v) = {}" and v: "set v \<inter> set (p @ u) = {}"
    and short: "length (p @ v) < 200"
  shows "find_longest_match (p @ u) (p @ v) 0 (length (p @ u)) 0 (length (p @ v))
           = (0, 0, length p)"
proof -
  obtain i j k where scan:
    "scan_rows p p 0 (length p) [0..<length p] (\<lambda>_. 0, (0, 0, 0)) = (i, j, k)"
    by (metis prod_cases3)
  from diag_inv_init scan have "i = j" by (rule scan_rows_diag)
  moreover from scan have "0 \<le> i \<and> i + k \<le> length p"
    by (rule scan_rows_bounds [rotated 3]) simp_all
  ultimately have eq: "i = j" and le: "j \<le> length p" and kle: "k + j \<le> length p"
    by simp_all
  have bk: "extend_back (p @ u) (p @ v) 0 0 (j, j, k) = (0, 0, k + j)"
    using le by (rule extend_back_common_prefix)
  have fw: "extend_forward (p @ u) (p @ v) (length (p @ u)) (length (p @ v)) (0, 0, k + j)
      = (0, 0, length p)"
    using kle by (rule extend_forward_common_prefix [OF u])
  show ?thesis
    unfolding find_longest_match_def scan_rows_common_prefix [OF u v short] scan eq bk fw ..
qed

lemma find_longest_match_tails:
  assumes u: "set u \<inter> set (p @ v) = {}"
  shows "find_longest_match (p @ u) (p @ v) (length p) (length (p @ u)) (length p) (length (p @ v))
           = (length p, length p, 0)"
proof -
  have "\<forall>i\<in>set [length p..<length (p @ u)]. b2j (p @ v) ((p @ u) ! i) = []"
  proof
    fix i assume "i \<in> set [length p..<length (p @ u)]"
    then have "(p @ u) ! i \<in> set u" by (intro nth_tail_mem) simp_all
    with u have "(p @ u) ! i \<notin> set (p @ v)" by blast
    then show "b2j (p @ v) ((p @ u) ! i) = []" by (rule b2j_absent)
  qed
  then have scan: "scan_rows (p @ u) (p @ v) (length p) (length (p @ v)) [length p..<length (p @ u)]
      (\<lambda>_. 0, (length p, length p, 0)) = (length p, length p, 0)"
    by (rule scan_rows_no_hits)
  have bk: "extend_back (p @ u) (p @ v) (length p) (length p) (length p, length p, 0)
      = (length p, length p, 0)"
    by (subst extend_back.simps) simp
  have fw: "extend_forward (p @ u) (p @ v) (length (p @ u)) (length (p @ v)) (length p, length p, 0)
      = (length p, length p, 0)"
    using first_differs [OF u] by (subst extend_forward.simps) auto
  show ?thesis
    unfolding find_longest_match_def scan bk fw ..
qed

lemma matching_blocks_loop_common_prefix:
  assumes u: "set u \<inter> set (p @ v) = {}" and v: "set v \<inter> set (p @ u) = {}"
    and short: "length (p @ v) < 200"
  shows "matching_blocks_loop (p @ u) (p @ v) [(0, length (p @ u), 0, length (p @ v))] []
           = (if p = [] then [] else [(0, 0, length p)])"
  by (simp add: find_longest_match_common_prefix [OF u v short]
      find_longest_match_tails [OF u] del: length_append)

lemma matches_common_prefix:
  assumes u: "set u \<inter> set (p @ v) = {}" and v: "set v \<inter> set (p @ u) = {}"
    and short: "length (p @ v) < 200"
  shows "matches (p @ u) (p @ v) = length p"
  unfolding matches_def get_matching_blocks_def Let_def
    matching_blocks_loop_common_prefix [OF u v short]
  by simp

text \<open>
  Claim C6, amended. The score is the same in both argument orders exactly when the
  matcher finds the same number of matching characters in both orders. This is the case
  when the two normal forms are equal, when one of them is empty, and when both are
  shorter than 200 characters and, after a common prefix, neither contains a character
  of the other; then the matching characters are those of the prefix.
\<close>

theorem sql_similarity_symmetric_iff:
  "(sql_similarity a b = sql_similarity b a
      \<longleftrightarrow> matches (normalize_sql a) (normalize_sql b)
            = matches (normalize_sql b) (normalize_sql a))
   \<and> (normalize_sql a = normalize_sql b \<or> normalize_sql a = [] \<or> normalize_sql b = []
        \<longrightarrow> sql_similarity a b = sql_similarity b a)
   \<and> (normalize_sql a = p @ u \<and> normalize_sql b = p @ v
        \<and> set u \<inter> set (normalize_sql b) = {} \<and> set v \<inter> set (normalize_sql a) = {}
        \<and> length (normalize_sql a) < 200 \<and> length (normalize_sql b) < 200
        \<longrightarrow> matches (normalize_sql a) (normalize_sql b) = length p
          \<and> matches (normalize_sql b) (normalize_sql a) = length p
          \<and> sql_similarity a b = sql_similarity b a)"
proof (intro conjI impI)
  show iff: "sql_similarity a b = sql_similarity b a
      \<longleftrightarrow> matches (normalize_sql a) (normalize_sql b)
            = matches (normalize_sql b) (normalize_sql a)" for a b
    by (simp add: sql_similarity_def ratio_symmetric_iff)
  show "sql_similarity a b = sql_similarity b a"
    if "normalize_sql a = normalize_sql b \<or> normalize_sql a = [] \<or> normalize_sql b = []"
    using that by (auto simp: sql_similarity_def ratio_same ratio_Nil_left ratio_Nil_right)
  assume prefix: "normalize_sql a = p @ u \<and> normalize_sql b = p @ v
        \<and> set u \<inter> set (normalize_sql b) = {} \<and> set v \<inter> set (normalize_sql a) = {}
        \<and> length (normalize_sql a) < 200 \<and> length (normalize_sql b) < 200"
  then have a: "normalize_sql a = p @ u" and b: "normalize_sql b = p @ v"
    by blast+
  from prefix have u: "set u \<inter> set (p @ v) = {}" and v: "set v \<inter> set (p @ u) = {}"
    and la: "length (p @ u) < 200" and lb: "length (p @ v) < 200"
    unfolding a b by blast+
  show ab: "matches (normalize_sql a) (normalize_sql b) = length p"
    unfolding a b using u v lb by (rule matches_common_prefix)
  show ba: "matches (normalize_sql b) (normalize_sql a) = length p"
    unfolding a b using v u la by (rule matches_common_prefix)
  from ab ba show "sql_similarity a b = sql_similarity b a"
    by (simp add: sql_similarity_def ratio_symmetric_iff)
qed

theorem sql_similarity_symmetric_witness:
  "normalize_sql ''SELECT title FROM film WHERE id = 1'' = ''select title from film where id = '' @ ''1''
   \<and> normalize_sql ''SELECT title FROM film WHERE id = 2'' = ''select title from film where id = '' @ ''2''
   \<and> matches (normalize_sql ''SELECT title FROM film WHERE id = 1'')
         (normalize_sql ''SELECT title FROM film WHERE id = 2'') = 34
   \<and> sql_similarity ''SELECT title FROM film WHERE id = 1'' ''SELECT title FROM film WHERE id = 2''
       = sql_similarity ''SELECT title FROM film WHERE id = 2'' ''SELECT title FROM film WHERE id = 1''"
proof -
  let ?a = "''SELECT title FROM film WHERE id = 1''"
  let ?b = "''SELECT title FROM film WHERE id = 2''"
  let ?p = "''select title from film where id = ''"
  have a: "normalize_sql ?a = ?p @ ''1''" by code_simp
  have b: "normalize_sql ?b = ?p @ ''2''" by code_simp
  have disjoint: "set ''1'' \<inter> set (normalize_sql ?b) = {} \<and> set ''2'' \<inter> set (normalize_sql ?a) = {}"
    unfolding a b by simp
  have short: "length (normalize_sql ?a) < 200 \<and> length (normalize_sql ?b) < 200"
    unfolding a b by simp
  from sql_similarity_symmetric_iff [of ?a ?b ?p "''1''" "''2''"] a b disjoint short
  have "matches (normalize_sql ?a) (normalize_sql ?b) = length ?p
      \<and> sql_similarity ?a ?b = sql_similarity ?b ?a"
    by blast
  with a b show ?thesis by simp
qed

text \<open>
  Claim C6 as stated, for all strings, fails. The matcher takes the longest block that
  starts earliest in its first argument and recurses to the left and right of it, so the
  blocks found depend on the argument order: \<^verbatim>\<open>tide\<close> against \<^verbatim>\<open>diet\<close> matches one
  character, \<^verbatim>\<open>diet\<close> against \<^verbatim>\<open>tide\<close> matches two; the two SQL statements below
  match 16 characters of 42 in one order and 17 in the other.
\<close>

theorem sql_similarity_not_symmetric:
  "sql_similarity ''tide'' ''diet'' = 1 / 4 \<and> sql_similarity ''diet'' ''tide'' = 1 / 2
     \<and> sql_similarity ''SELECT rating FROM t'' ''SELECT actor_id FROM t'' = 16 / 21
     \<and> sql_similarity ''SELECT actor_id FROM t'' ''SELECT rating FROM t'' = 17 / 21"
  by code_simp

section \<open>Properties of the executor\<close>

subsection \<open>The six ways through an execution\<close>

lemma world_same_connections:
  "w\<lparr>open_connections := open_connections w\<rparr> = w"
  by simp

lemma execute_sql_connect_error:
  assumes "connect E (db w) = (Inl e, s)"
  shows "execute_sql E sql w = ((False, PyStr e), w\<lparr>db := s, trace := trace w @ [Connect]\<rparr>)"
  using assms by (simp add: execute_sql_def execute_sql_try_def call_def)

lemma execute_sql_execute_error:
  assumes "connect E (db w) = (Inr u, s0)" and "execute E sql s0 = (Inl e, s1)"
  shows "execute_sql E sql w
    = ((False, PyStr e), w\<lparr>db := close E s1, trace := trace w @ [Connect, Execute sql, Close]\<rparr>)"
  using assms
  by (simp add: execute_sql_def execute_sql_try_def call_def conn_open_def conn_close_def Let_def)

lemma execute_sql_fetchall_error:
  assumes "connect E (db w) = (Inr u, s0)" and "execute E sql s0 = (Inr rc, s1)"
    and "startswith (upper (strip sql)) ''SELECT''" and "fetchall E s1 = (Inl e, s2)"
  shows "execute_sql E sql w
    = ((False, PyStr e),
       w\<lparr>db := close E s2, trace := trace w @ [Connect, Execute sql, Fetchall, Close]\<rparr>)"
  using assms
  by (simp add: execute_sql_def execute_sql_try_def call_def conn_open_def conn_close_def Let_def)

lemma execute_sql_commit_error:
  assumes "connect E (db w) = (Inr u, s0)" and "execute E sql s0 = (Inr rc, s1)"
    and "\<not> startswith (upper (strip sql)) ''SELECT''" and "commit E s1 = (Inl e, s2)"
  shows "execute_sql E sql w
    = ((False, PyStr e),
       w\<lparr>db := close E s2, trace := trace w @ [Connect, Execute sql, Commit, Close]\<rparr>)"
  using assms
  by (simp add: execute_sql_def execute_sql_try_def call_def conn_open_def conn_close_def Let_def)

lemma execute_sql_read:
  assumes "connect E (db w) = (Inr u, s0)" and "execute E sql s0 = (Inr rc, s1)"
    and "startswith (upper (strip sql)) ''SELECT''" and "fetchall E s1 = (Inr rows, s2)"
  shows "execute_sql E sql w
    = ((True, PyRows rows),
       w\<lparr>db := close E s2, trace := trace w @ [Connect, Execute sql, Fetchall, Close]\<rparr>)"
  using assms
  by (simp add: execute_sql_def execute_sql_try_def call_def conn_open_def conn_close_def Let_def)

lemma execute_sql_write:
  assumes "connect E (db w) = (Inr u, s0)" and "execute E sql s0 = (Inr rc, s1)"
    and "\<not> startswith (upper (strip sql)) ''SELECT''" and "commit E s1 = (Inr u', s2)"
  shows "execute_sql E sql w
    = ((True, PyInt rc),
       w\<lparr>db := close E s2, trace := trace w @ [Connect, Execute sql, Commit, Close]\<rparr>)"
  using assms
  by (simp add: execute_sql_def execute_sql_try_def call_def conn_open_def conn_close_def Let_def)

lemma execute_sql_cases:
  obtains
    (connect_error) e s where "connect E (db w) = (Inl e, s)"
  | (execute_error) u s0 e s1 where
      "connect E (db w) = (Inr u, s0)" and "execute E sql s0 = (Inl e, s1)"
  | (fetchall_error) u s0 rc s1 e s2 where
      "connect E (db w) = (Inr u, s0)" and "execute E sql s0 = (Inr rc, s1)"
      and "startswith (upper (strip sql)) ''SELECT''" and "fetchall E s1 = (Inl e, s2)"
  | (commit_error) u s0 rc s1 e s2 where
      "connect E (db w) = (Inr u, s0)" and "execute E sql s0 = (Inr rc, s1)"
      and "\<not> startswith (upper (strip sql)) ''SELECT''" and "commit E s1 = (Inl e, s2)"
  | (read_ok) u s0 rc s1 rows s2 where
      "connect E (db w) = (Inr u, s0)" and "execute E sql s0 = (Inr rc, s1)"
      and "startswith (upper (strip sql)) ''SELECT''" and "fetchall E s1 = (Inr rows, s2)"
  | (write_ok) u s0 rc s1 u' s2 where
      "connect E (db w) = (Inr u, s0)" and "execute E sql s0 = (Inr rc, s1)"
      and "\<not> startswith (upper (strip sql)) ''SELECT''" and "commit E s1 = (Inr u', s2)"
proof -
  obtain c s0 where c: "connect E (db w) = (c, s0)" by (cases "connect E (db w)")
  obtain x s1 where x: "execute E sql s0 = (x, s1)" by (cases "execute E sql s0")
  obtain f s2 where f: "fetchall E s1 = (f, s2)" by (cases "fetchall E s1")
  obtain m s3 where m: "commit E s1 = (m, s3)" by (cases "commit E s1")
  show thesis
  proof (cases c)
    case (Inl e)
    with c show thesis by (intro that(1) [of e s0]) simp
  next
    case u: (Inr u)
    show thesis
    proof (cases x)
      case (Inl e)
      with c u x show thesis by (intro that(2) [of u s0 e s1]) simp_all
    next
      case rc: (Inr rc)
      show thesis
      proof (cases "startswith (upper (strip sql)) ''SELECT''")
        case True
        show thesis
        proof (cases f)
          case (Inl e)
          with c u x rc f True show thesis by (intro that(3) [of u s0 rc s1 e s2]) simp_all
        next
          case (Inr rows)
          with c u x rc f True show thesis by (intro that(5) [of u s0 rc s1 rows s2]) simp_all
        qed
      next
        case False
        show thesis
        proof (cases m)
          case (Inl e)
          with c u x rc m False show thesis by (intro that(4) [of u s0 rc s1 e s3]) simp_all
        next
          case (Inr u')
          with c u x rc m False show thesis by (intro that(6) [of u s0 rc s1 u' s3]) simp_all
        qed
      qed
    qed
  qed
qed

lemma fst_execute_sql:
  "fst (execute_sql E sql w) =
     (case fst (execute_sql_try E sql w) of
        Inl (msg, conn_in_locals) \<Rightarrow> (False, PyStr msg)
      | Inr r \<Rightarrow> r)"
  by (simp add: execute_sql_def split: prod.splits sum.splits)

lemma execute_sql_try_success:
  "fst (execute_sql_try E sql w) = Inr r \<Longrightarrow> fst r"
  by (auto simp: execute_sql_try_def call_def Let_def split: prod.splits sum.splits if_splits)

lemma execute_sql_failure_payload:
  assumes "\<not> fst (fst (execute_sql E sql w))"
  shows "\<exists>msg. snd (fst (execute_sql E sql w)) = PyStr msg"
  using assms
  by (cases rule: execute_sql_cases [where E = E and w = w and sql = sql])
    (simp_all add: execute_sql_connect_error execute_sql_execute_error
      execute_sql_fetchall_error execute_sql_commit_error execute_sql_read execute_sql_write)

subsection \<open>Errors are caught and the connection is released\<close>



subsection \<open>Reads and writes\<close>

text \<open>
  Claim C8. The leading keyword is tested as the code tests it and as the specification
  describes its classification, by a string prefix check: the statement, trimmed and in
  upper case, starts with \<^verbatim>\<open>SELECT\<close>. For every engine and every state in which
  \<^verbatim>\<open>connect\<close> succeeds: a \<^verbatim>\<open>SELECT\<close> statement that executes and whose \<^verbatim>\<open>fetchall\<close>
  returns rows gives \<^verbatim>\<open>(True, rows)\<close> with all the rows in their order, and the calls made
  are connect, execute, fetchall, close, with no commit; any other statement that
  executes and whose commit succeeds gives \<^verbatim>\<open>(True, rowcount)\<close>, and the calls made are
  connect, execute, commit, close. A statement that the engine refuses to execute gives
  \<^verbatim>\<open>(False, message)\<close> whichever its class (a word that merely begins with
  \<^verbatim>\<open>SELECT\<close> is not a statement of SQL).
\<close>

theorem execute_sql_classification:
  assumes "connect E (db w) = (Inr u, s0)"
  shows "(startswith (upper (strip sql)) ''SELECT'' \<and> execute E sql s0 = (Inr rc, s1)
            \<and> fetchall E s1 = (Inr rows, s2) \<longrightarrow>
            execute_sql E sql w
              = ((True, PyRows rows),
                 w\<lparr>db := close E s2, trace := trace w @ [Connect, Execute sql, Fetchall, Close]\<rparr>))
       \<and> (\<not> startswith (upper (strip sql)) ''SELECT'' \<and> execute E sql s0 = (Inr rc, s1)
            \<and> commit E s1 = (Inr u', s3) \<longrightarrow>
            execute_sql E sql w
              = ((True, PyInt rc),
                 w\<lparr>db := close E s3, trace := trace w @ [Connect, Execute sql, Commit, Close]\<rparr>))
       \<and> (execute E sql s0 = (Inl e, s4) \<longrightarrow>
            execute_sql E sql w
              = ((False, PyStr e),
                 w\<lparr>db := close E s4, trace := trace w @ [Connect, Execute sql, Close]\<rparr>))"
  using assms by (simp add: execute_sql_read execute_sql_write execute_sql_execute_error)

theorem execute_sql_classification_witness:
  "execute_sql toy_engine '' select id from t'' (toy_world [2, 3])
     = ((True, PyRows [[SqlInt 2], [SqlInt 3]]),
        \<lparr>db = \<lparr>stored = [2, 3], working = [2, 3]\<rparr>, llm = (), open_connections = 0,
         trace = [Connect, Execute '' select id from t'', Fetchall, Close]\<rparr>)
   \<and> execute_sql toy_engine ''DELETE FROM t'' (toy_world [2, 3])
     = ((True, PyInt 2),
        \<lparr>db = \<lparr>stored = [], working = []\<rparr>, llm = (), open_connections = 0,
         trace = [Connect, Execute ''DELETE FROM t'', Commit, Close]\<rparr>)"
proof -
  let ?s = "\<lparr>stored = [2, 3], working = [2, 3]\<rparr>"
  have c: "connect toy_engine (db (toy_world [2, 3])) = (Inr (), ?s)" by code_simp
  have x1: "execute toy_engine '' select id from t'' ?s = (Inr (- 1), ?s)" by code_simp
  have k1: "startswith (upper (strip '' select id from t'')) ''SELECT''" by code_simp
  have f1: "fetchall toy_engine ?s = (Inr [[SqlInt 2], [SqlInt 3]], ?s)" by code_simp
  have x2: "execute toy_engine ''DELETE FROM t'' ?s = (Inr 2, \<lparr>stored = [2, 3], working = []\<rparr>)"
    by code_simp
  have k2: "\<not> startswith (upper (strip ''DELETE FROM t'')) ''SELECT''" by code_simp
  have m2: "commit toy_engine \<lparr>stored = [2, 3], working = []\<rparr>
      = (Inr (), \<lparr>stored = [], working = []\<rparr>)" by code_simp
  from execute_sql_classification
    [OF c, where sql = "'' select id from t''" and rc = "- 1" and ?s1.0 = ?s
      and rows = "[[SqlInt 2], [SqlInt 3]]" and ?s2.0 = ?s] x1 k1 f1
  have "execute_sql toy_engine '' select id from t'' (toy_world [2, 3])
     = ((True, PyRows [[SqlInt 2], [SqlInt 3]]),
        (toy_world [2, 3])\<lparr>db := close toy_engine ?s,
          trace := trace (toy_world [2, 3]) @ [Connect, Execute '' select id from t'', Fetchall, Close]\<rparr>)"
    by blast
  moreover from execute_sql_classification
    [OF c, where sql = "''DELETE FROM t''" and rc = 2
      and ?s1.0 = "\<lparr>stored = [2, 3], working = []\<rparr>" and u' = "()"
      and ?s3.0 = "\<lparr>stored = [], working = []\<rparr>"] x2 k2 m2
  have "execute_sql toy_engine ''DELETE FROM t'' (toy_world [2, 3])
     = ((True, PyInt 2),
        (toy_world [2, 3])\<lparr>db := close toy_engine \<lparr>stored = [], working = []\<rparr>,
          trace := trace (toy_world [2, 3]) @ [Connect, Execute ''DELETE FROM t'', Commit, Close]\<rparr>)"
    by blast
  ultimately show ?thesis by (simp add: toy_world_def toy_engine_def)
qed

section \<open>Properties of the per-case evaluator\<close>

subsection \<open>Execution accuracy\<close>

text \<open>
  Claim C1. The execution accuracy of a pair of statements is the score that the
  specification assigns to the outcomes of the two executions, the predicted statement
  first and the reference statement in the world the first execution left: \<open>1\<close> for two
  successes with equal payloads, \<open>0\<close> for two successes with different payloads, \<open>1\<close> for
  two failures whatever their messages, \<open>0\<close> for one success and one failure.
\<close>

theorem execution_accuracy_of_outcomes:
  "fst (execution_accuracy E pred ref w)
     = accuracy_of_outcomes (outcome E pred w)
         (outcome E ref (snd (execute_sql E pred w)))"
proof -
  obtain r1 w1 where p: "execute_sql E pred w = (r1, w1)"
    by (cases "execute_sql E pred w")
  obtain r2 w2 where r: "execute_sql E ref w1 = (r2, w2)"
    by (cases "execute_sql E ref w1")
  have o: "(ok, v) = fst (execute_sql E sql w')
      \<Longrightarrow> outcome E sql w' = (if ok then Success v else Failure (case v of PyStr m \<Rightarrow> m | _ \<Rightarrow> []))
        \<and> (\<not> ok \<longrightarrow> (\<exists>m. v = PyStr m))"
    for ok v sql and w' :: "('a, 'b) world"
    by (auto simp: fst_execute_sql outcome_def dest: execute_sql_try_success split: sum.splits)
  obtain ok1 v1 ok2 v2 where r1: "r1 = (ok1, v1)" and r2: "r2 = (ok2, v2)"
    by (cases r1, cases r2)
  from o [of ok1 v1 pred w] o [of ok2 v2 ref w1] p r r1 r2
  show ?thesis
    by (auto simp: execution_accuracy_def)
qed

theorem execution_accuracy_of_outcomes_witness:
  "outcome toy_engine ''INSERT INTO t VALUES (1)'' (toy_world [1])
     = Failure ''UNIQUE constraint failed: t.id''
   \<and> outcome toy_engine ''SELEC id FROM t''
         (snd (execute_sql toy_engine ''INSERT INTO t VALUES (1)'' (toy_world [1])))
     = Failure ''syntax error''
   \<and> fst (execution_accuracy toy_engine ''INSERT INTO t VALUES (1)'' ''SELEC id FROM t''
         (toy_world [1])) = 1"
proof -
  have o1: "outcome toy_engine ''INSERT INTO t VALUES (1)'' (toy_world [1])
     = Failure ''UNIQUE constraint failed: t.id''"
    by code_simp
  have o2: "outcome toy_engine ''SELEC id FROM t''
         (snd (execute_sql toy_engine ''INSERT INTO t VALUES (1)'' (toy_world [1])))
     = Failure ''syntax error''"
    by code_simp
  from execution_accuracy_of_outcomes
    [of toy_engine "''INSERT INTO t VALUES (1)''" "''SELEC id FROM t''" "toy_world [1]"] o1 o2
  show ?thesis by simp
qed

subsection \<open>The predicted statement runs twice\<close>

lemma execute_sql_write_trace:
  assumes "\<not> startswith (upper (strip sql)) ''SELECT''" and "fst (fst (execute_sql E sql w))"
  shows "trace (snd (execute_sql E sql w)) = trace w @ [Connect, Execute sql, Commit, Close]"
  using assms
  by (cases rule: execute_sql_cases [where E = E and w = w and sql = sql])
    (simp_all add: execute_sql_connect_error execute_sql_execute_error
      execute_sql_fetchall_error execute_sql_commit_error execute_sql_read execute_sql_write)

lemma execute_sql_trace_extends:
  "\<exists>evs. trace (snd (execute_sql E sql w)) = trace w @ evs"
  by (cases rule: execute_sql_cases [where E = E and w = w and sql = sql])
    (simp_all add: execute_sql_connect_error execute_sql_execute_error
      execute_sql_fetchall_error execute_sql_commit_error execute_sql_read execute_sql_write)

lemma generate_sql_trace:
  "generate_sql G q w = (pred, w0) \<Longrightarrow> trace w0 = trace w"
  by (auto simp: generate_sql_def split: prod.splits)

text \<open>
  Claim C10. \<^verbatim>\<open>evaluate_single_query\<close> executes the predicted statement, then the
  reference statement, then the predicted statement again, each in the world the
  execution before it left. The execution accuracy is computed from the first and the
  second execution, \<^verbatim>\<open>is_executable\<close> and \<^verbatim>\<open>execution_result\<close> from the third. When the
  predicted statement is not a \<^verbatim>\<open>SELECT\<close> and succeeds both times, the calls made are
  connect, execute, commit, close for it, then the calls of the reference statement, then
  connect, execute, commit, close for it again. And there are a state of the database and
  a predicted statement for which \<^verbatim>\<open>is_executable\<close> differs from the success of the first
  execution: an insertion of a key that the first execution already inserted.
\<close>

theorem evaluate_single_query_runs_predicted_twice:
  assumes "generate_sql G q w = (pred, w0)"
    and "execute_sql E pred w0 = (r1, w1)"
    and "execute_sql E ref w1 = (r2, w2)"
    and "execute_sql E pred w2 = (r3, w3)"
  shows "evaluate_single_query E G q ref w =
           (\<lparr>question = q, reference_sql = ref, predicted_sql = pred,
             exact_match = exact_match_score pred ref,
             similarity = sql_similarity pred ref,
             exec_accuracy =
               (if fst r1 \<and> fst r2 then (if py_eq (snd r1) (snd r2) then 1 else 0)
                else if \<not> fst r1 \<and> \<not> fst r2 then 1 else 0),
             is_executable = fst r3, execution_result = snd r3\<rparr>, w3)
       \<and> (\<not> startswith (upper (strip pred)) ''SELECT'' \<and> fst r1 \<and> fst r3 \<longrightarrow>
            (\<exists>mid. trace w3 = trace w @ [Connect, Execute pred, Commit, Close] @ mid
                        @ [Connect, Execute pred, Commit, Close]))
       \<and> (\<exists>w' q' ref'.
             is_executable (fst (evaluate_single_query toy_engine echo_llm q' ref' w'))
               \<noteq> fst (fst (execute_sql toy_engine q' w')))"
proof (intro conjI impI)
  show "evaluate_single_query E G q ref w =
           (\<lparr>question = q, reference_sql = ref, predicted_sql = pred,
             exact_match = exact_match_score pred ref,
             similarity = sql_similarity pred ref,
             exec_accuracy =
               (if fst r1 \<and> fst r2 then (if py_eq (snd r1) (snd r2) then 1 else 0)
                else if \<not> fst r1 \<and> \<not> fst r2 then 1 else 0),
             is_executable = fst r3, execution_result = snd r3\<rparr>, w3)"
    using assms
    by (cases r1; cases r2; cases r3)
      (simp add: evaluate_single_query_def execution_accuracy_def Let_def)
next
  assume h: "\<not> startswith (upper (strip pred)) ''SELECT'' \<and> fst r1 \<and> fst r3"
  have t0: "trace w0 = trace w" using assms(1) by (rule generate_sql_trace)
  have t1: "trace w1 = trace w0 @ [Connect, Execute pred, Commit, Close]"
    using execute_sql_write_trace [of pred E w0] h assms(2) by simp
  obtain mid where t2: "trace w2 = trace w1 @ mid"
    using execute_sql_trace_extends [of E ref w1] assms(3) by auto
  have t3: "trace w3 = trace w2 @ [Connect, Execute pred, Commit, Close]"
    using execute_sql_write_trace [of pred E w2] h assms(4) by simp
  show "\<exists>mid. trace w3 = trace w @ [Connect, Execute pred, Commit, Close] @ mid
                        @ [Connect, Execute pred, Commit, Close]"
    by (rule exI [of _ mid]) (simp add: t0 t1 t2 t3)
next
  have "is_executable (fst (evaluate_single_query toy_engine echo_llm
            ''INSERT INTO t VALUES (1)'' ''SELECT id FROM t'' (toy_world [2, 3])))
      \<noteq> fst (fst (execute_sql toy_engine ''INSERT INTO t VALUES (1)'' (toy_world [2, 3])))"
    by code_simp
  then show "\<exists>w' q' ref'.
             is_executable (fst (evaluate_single_query toy_engine echo_llm q' ref' w'))
               \<noteq> fst (fst (execute_sql toy_engine q' w'))"
    by blast
qed

theorem evaluate_single_query_runs_predicted_twice_witness:
  "\<not> startswith (upper (strip ''DELETE FROM t'')) ''SELECT''
   \<and> evaluate_single_query toy_engine echo_llm ''DELETE FROM t'' ''SELECT id FROM t'' (toy_world [2, 3])
     = (\<lparr>question = ''DELETE FROM t'', reference_sql = ''SELECT id FROM t'',
         predicted_sql = ''DELETE FROM t'',
         exact_match = exact_match_score ''DELETE FROM t'' ''SELECT id FROM t'',
         similarity = sql_similarity ''DELETE FROM t'' ''SELECT id FROM t'',
         exec_accuracy = 0, is_executable = True, execution_result = PyInt 0\<rparr>,
        \<lparr>db = \<lparr>stored = [], working = []\<rparr>, llm = (), open_connections = 0,
         trace = [Connect, Execute ''DELETE FROM t'', Commit, Close,
                  Connect, Execute ''SELECT id FROM t'', Fetchall, Close,
                  Connect, Execute ''DELETE FROM t'', Commit, Close]\<rparr>)"
proof -
  let ?del = "''DELETE FROM t''"
  let ?sel = "''SELECT id FROM t''"
  let ?w1 = "\<lparr>db = \<lparr>stored = [], working = []\<rparr>, llm = (), open_connections = 0,
      trace = [Connect, Execute ?del, Commit, Close]\<rparr> :: (toy_db, unit) world"
  let ?w2 = "\<lparr>db = \<lparr>stored = [], working = []\<rparr>, llm = (), open_connections = 0,
      trace = [Connect, Execute ?del, Commit, Close,
               Connect, Execute ?sel, Fetchall, Close]\<rparr> :: (toy_db, unit) world"
  let ?w3 = "\<lparr>db = \<lparr>stored = [], working = []\<rparr>, llm = (), open_connections = 0,
      trace = [Connect, Execute ?del, Commit, Close,
               Connect, Execute ?sel, Fetchall, Close,
               Connect, Execute ?del, Commit, Close]\<rparr> :: (toy_db, unit) world"
  have k: "\<not> startswith (upper (strip ?del)) ''SELECT''" by code_simp
  have g: "generate_sql echo_llm ?del (toy_world [2, 3]) = (?del, toy_world [2, 3])" by code_simp
  have e1: "execute_sql toy_engine ?del (toy_world [2, 3]) = ((True, PyInt 2), ?w1)" by code_simp
  have e2: "execute_sql toy_engine ?sel ?w1 = ((True, PyRows []), ?w2)" by code_simp
  have e3: "execute_sql toy_engine ?del ?w2 = ((True, PyInt 0), ?w3)" by code_simp
  from evaluate_single_query_runs_predicted_twice [OF g e1 e2 e3] k show ?thesis by simp
qed

section \<open>Empty inputs and counts that are not positive\<close>

lemma select_test_subset_returns:
  "well_formed corpus \<Longrightarrow> \<exists>selected. select_test_subset corpus count = Inr selected"
  by (simp add: select_test_subset_def queries_starting_bucket Let_def)

lemma select_test_subset_zero:
  "well_formed corpus \<Longrightarrow> select_test_subset corpus 0 = Inr []"
  by (simp add: select_test_subset_def queries_starting_bucket Let_def slice_to_def)

lemma select_test_subset_raises:
  assumes "select_test_subset corpus count = Inl e"
  shows "e = KeyError ''sql'' \<and> \<not> well_formed corpus"
proof (cases "well_formed corpus")
  case True
  with select_test_subset_returns [of corpus count] assms show ?thesis by auto
next
  case False
  from assms have "count < int (length corpus)"
    by (auto simp: select_test_subset_def split: if_splits)
  with False have "select_test_subset corpus count = Inl (KeyError ''sql'')"
    by (rule select_test_subset_KeyError)
  with assms False show ?thesis by simp
qed

text \<open>
  Claim C2, amended. No precondition is checked. \<^verbatim>\<open>evaluate_dataset\<close> on the empty list
  returns a report with no samples, an empty list of results and \<^verbatim>\<open>nan\<close> for the four
  means, and leaves the world as it was. \<^verbatim>\<open>select_test_subset\<close> with count \<open>0\<close> returns the
  empty selection, and with any count, negative ones too, it returns a selection; the
  only exception it raises is the \<^verbatim>\<open>KeyError\<close> of a record without its \<^verbatim>\<open>sql\<close> field.
\<close>

theorem no_precondition_error:
  "evaluate_dataset E G [] w =
     (Inr \<lparr>total_samples = 0, exact_match_accuracy = NaN, average_similarity = NaN,
            execution_accuracy_mean = NaN, execution_success_rate = NaN,
            detailed_results = []\<rparr>, w)
   \<and> (well_formed corpus \<longrightarrow> select_test_subset corpus 0 = Inr [])
   \<and> (well_formed corpus \<longrightarrow> (\<exists>selected. select_test_subset corpus count = Inr selected))
   \<and> (select_test_subset corpus count = Inl e \<longrightarrow> e = KeyError ''sql'' \<and> \<not> well_formed corpus)"
  by (simp add: evaluate_dataset_def np_mean_def select_test_subset_zero
      select_test_subset_returns select_test_subset_raises)

theorem no_precondition_error_witness:
  "well_formed three_selects
   \<and> select_test_subset three_selects 0 = Inr []
   \<and> (\<exists>selected. select_test_subset three_selects (- 2) = Inr selected)"
proof -
  have wf: "well_formed three_selects" by code_simp
  with no_precondition_error [where corpus = three_selects and count = "- 2"]
  show ?thesis by blast
qed

text \<open>
  Claim C2 as stated fails: the empty data set gives a report of \<^verbatim>\<open>nan\<close> means, count \<open>0\<close>
  gives the empty selection, and count \<open>-1\<close> on three SELECTs gives the first of them
  (the quotas are negative, and the slices count from the end).
\<close>

theorem returns_instead_of_raising:
  "evaluate_dataset toy_engine echo_llm [] (toy_world [1]) =
     (Inr \<lparr>total_samples = 0, exact_match_accuracy = NaN, average_similarity = NaN,
            execution_accuracy_mean = NaN, execution_success_rate = NaN,
            detailed_results = []\<rparr>, toy_world [1])
   \<and> select_test_subset three_selects 0 = Inr []
   \<and> select_test_subset three_selects (- 1) = Inr [test_case ''q1'' ''SELECT 1'']"
  by code_simp

end
